theory Spec2Isabelle
  imports Main
begin

section \<open>Python strings\<close>

text \<open>
  A Python \<open>str\<close> is a sequence of Unicode code points, so it is modelled as a list of
  naturals (an Isabelle \<open>char\<close> is only a byte). \<open>str\<close> turns an ASCII literal into
  such a string and \<open>ch\<close> a single ASCII character into its code point.
\<close>

type_synonym pystr = "nat list"

abbreviation ch :: "char \<Rightarrow> nat" where
  "ch c \<equiv> of_char c"

definition str :: "string \<Rightarrow> pystr" where
  "str s = map of_char s"

definition isdigit :: "nat \<Rightarrow> bool" where
  "isdigit c = (48 \<le> c \<and> c \<le> 57)"

text \<open>\<open>sep.join(xs)\<close>.\<close>

fun join :: "pystr \<Rightarrow> pystr list \<Rightarrow> pystr" where
  "join sep [] = []"
| "join sep [x] = x"
| "join sep (x # y # ys) = x @ sep @ join sep (y # ys)"

subsection \<open>Integers and their decimal text\<close>

text \<open>\<open>int.__repr__\<close> (also what an f-string does with an int): decimal digits, most
  significant first, with a leading minus sign for a negative number.\<close>

fun digits :: "nat \<Rightarrow> pystr" where
  "digits n = (if n < 10 then [48 + n] else digits (n div 10) @ [48 + n mod 10])"

declare digits.simps [simp del]

definition repr_int :: "int \<Rightarrow> pystr" where
  "repr_int i = (if i < 0 then ch CHR ''-'' # digits (nat (- i)) else digits (nat i))"

text \<open>\<open>int(s)\<close> on the text the number scanner hands over: an optional minus sign and
  decimal digits.\<close>

definition digits_value :: "pystr \<Rightarrow> nat" where
  "digits_value ds = foldl (\<lambda>acc d. 10 * acc + (d - 48)) 0 ds"

definition int_of_text :: "pystr \<Rightarrow> int" where
  "int_of_text s =
     (case s of
        [] \<Rightarrow> 0
      | c # r \<Rightarrow> if c = ch CHR ''-'' then - int (digits_value r) else int (digits_value s))"

section \<open>The json library\<close>

text \<open>
  The script calls \<open>response.json()\<close>, \<open>json.dumps\<close> and \<open>json.dump\<close>. They are the
  standard library's, not the script's; this section models them as CPython's \<open>json\<close>
  package behaves with the arguments the script passes (default decoder, \<open>indent\<close> given,
  \<open>ensure_ascii\<close> and \<open>allow_nan\<close> at their defaults).

  Floating point is not modelled: the type of floats is a parameter \<open>'f\<close>, and the three
  operations the library needs from it are passed in a record. Neither the interpreter's
  recursion limit nor its limit on the number of digits of an integer is modelled.
\<close>

record 'f floatlib =
  pyfloat :: "pystr \<Rightarrow> 'f"        \<comment> \<open>\<open>float(text)\<close>\<close>
  float_repr :: "'f \<Rightarrow> pystr"     \<comment> \<open>\<open>float.__repr__(x)\<close>\<close>
  isnan :: "'f \<Rightarrow> bool"           \<comment> \<open>\<open>x != x\<close>\<close>

text \<open>What \<open>json.loads\<close> returns: \<open>None\<close>, a bool, an int, a float, a str, a list or a
  dict. A dict keeps its keys in insertion order, so it is an association list.\<close>

datatype 'f json =
    JNull
  | JBool bool
  | JInt int
  | JFloat 'f
  | JStr pystr
  | JArr "'f json list"
  | JObj "(pystr \<times> 'f json) list"

text \<open>\<open>d[k] = v\<close> on a dict: a key already present keeps its place and takes the new
  value, a new key goes last.\<close>

fun dict_set :: "(pystr \<times> 'v) list \<Rightarrow> pystr \<Rightarrow> 'v \<Rightarrow> (pystr \<times> 'v) list" where
  "dict_set [] k v = [(k, v)]"
| "dict_set ((k', v') # d) k v = (if k' = k then (k, v) # d else (k', v') # dict_set d k v)"

subsection \<open>Encoding\<close>

definition hexdigit :: "nat \<Rightarrow> nat" where
  "hexdigit d = (if d < 10 then 48 + d else 87 + d)"

text \<open>\<open>'{0:04x}'.format(n)\<close> for \<open>n < 0x10000\<close>.\<close>

definition hex4 :: "nat \<Rightarrow> pystr" where
  "hex4 n = [hexdigit (n div 4096 mod 16), hexdigit (n div 256 mod 16),
             hexdigit (n div 16 mod 16), hexdigit (n mod 16)]"

text \<open>
  \<open>py_encode_basestring_ascii\<close>: the characters from space to tilde other than the quote
  and the backslash stand for themselves; the others are replaced by their entry of
  \<open>ESCAPE_DCT\<close> or by \<open>\uXXXX\<close>, a code point from 0x10000 (65536) on by a surrogate pair,
  \<open>0xd800 | ((n >> 10) & 0x3ff)\<close> and \<open>0xdc00 | (n & 0x3ff)\<close> with \<open>n\<close> the code point
  minus 0x10000 (the bitwise or is an addition here, both constants being multiples
  of 1024).
\<close>

definition escape_char :: "nat \<Rightarrow> pystr" where
  "escape_char c =
     (if c = ch CHR 0x5C then str [CHR 0x5C, CHR 0x5C]
      else if c = ch CHR 0x22 then str [CHR 0x5C, CHR 0x22]
      else if 32 \<le> c \<and> c \<le> 126 then [c]
      else if c = 8 then str [CHR 0x5C, CHR ''b'']
      else if c = 12 then str [CHR 0x5C, CHR ''f'']
      else if c = 10 then str [CHR 0x5C, CHR ''n'']
      else if c = 13 then str [CHR 0x5C, CHR ''r'']
      else if c = 9 then str [CHR 0x5C, CHR ''t'']
      else if c < 65536 then str [CHR 0x5C, CHR ''u''] @ hex4 c
      else (let n = c - 65536;
                s1 = 55296 + (n div 1024) mod 1024;
                s2 = 56320 + n mod 1024
            in str [CHR 0x5C, CHR ''u''] @ hex4 s1 @ str [CHR 0x5C, CHR ''u''] @ hex4 s2))"

definition encode_basestring_ascii :: "pystr \<Rightarrow> pystr" where
  "encode_basestring_ascii s = ch CHR 0x22 # concat (map escape_char s) @ [ch CHR 0x22]"

text \<open>The encoder's \<open>floatstr\<close>, with \<open>allow_nan\<close> true.\<close>

definition floatstr :: "'f floatlib \<Rightarrow> 'f \<Rightarrow> pystr" where
  "floatstr F x =
     (if isnan F x then str ''NaN''
      else if x = pyfloat F (str ''inf'') then str ''Infinity''
      else if x = pyfloat F (str ''-inf'') then str ''-Infinity''
      else float_repr F x)"

text \<open>\<open>'\n' + indent * level\<close>, the indent being that many spaces.\<close>

definition newline_indent :: "nat \<Rightarrow> nat \<Rightarrow> pystr" where
  "newline_indent indent level = 10 # replicate (indent * level) 32"

text \<open>
  \<open>_iterencode\<close>, \<open>_iterencode_list\<close> and \<open>_iterencode_dict\<close> of \<open>_make_iterencode\<close>, the
  chunks concatenated. With an indent the item separator is a comma and the key separator
  a colon and a space.
\<close>

fun iterencode :: "'f floatlib \<Rightarrow> nat \<Rightarrow> nat \<Rightarrow> 'f json \<Rightarrow> pystr" where
  "iterencode F indent level JNull = str ''null''"
| "iterencode F indent level (JBool b) = (if b then str ''true'' else str ''false'')"
| "iterencode F indent level (JInt i) = repr_int i"
| "iterencode F indent level (JFloat x) = floatstr F x"
| "iterencode F indent level (JStr s) = encode_basestring_ascii s"
| "iterencode F indent level (JArr vs) =
     (if vs = [] then str ''[]''
      else str ''['' @ newline_indent indent (level + 1)
           @ join (str '','' @ newline_indent indent (level + 1))
                (map (iterencode F indent (level + 1)) vs)
           @ newline_indent indent level @ str '']'')"
| "iterencode F indent level (JObj kvs) =
     (if kvs = [] then str ''{}''
      else str ''{'' @ newline_indent indent (level + 1)
           @ join (str '','' @ newline_indent indent (level + 1))
                (map (\<lambda>(k, v). encode_basestring_ascii k @ str '': ''
                                 @ iterencode F indent (level + 1) v) kvs)
           @ newline_indent indent level @ str ''}'')"

text \<open>\<open>json.dumps(obj, indent=n)\<close>; \<open>json.dump(obj, f, indent=n)\<close> writes the same text
  to \<open>f\<close>.\<close>

definition json_dumps :: "'f floatlib \<Rightarrow> nat \<Rightarrow> 'f json \<Rightarrow> pystr" where
  "json_dumps F indent obj = iterencode F indent 0 obj"

subsection \<open>Decoding\<close>

text \<open>The decoder's whitespace: space, tab, line feed, carriage return.\<close>

definition is_ws :: "nat \<Rightarrow> bool" where
  "is_ws c = (c = 32 \<or> c = 9 \<or> c = 10 \<or> c = 13)"

definition skip_ws :: "pystr \<Rightarrow> pystr" where
  "skip_ws s = dropWhile is_ws s"

definition hexval :: "nat \<Rightarrow> nat option" where
  "hexval c =
     (if 48 \<le> c \<and> c \<le> 57 then Some (c - 48)
      else if 97 \<le> c \<and> c \<le> 102 then Some (c - 87)
      else if 65 \<le> c \<and> c \<le> 70 then Some (c - 55)
      else None)"

text \<open>The four hexadecimal digits of a \<open>\uXXXX\<close> escape, \<open>s\<close> starting after the \<open>u\<close>.\<close>

definition decode_uXXXX :: "pystr \<Rightarrow> nat option" where
  "decode_uXXXX s =
     (case s of
        a # b # c # d # _ \<Rightarrow>
          (case (hexval a, hexval b, hexval c, hexval d) of
             (Some x3, Some x2, Some x1, Some x0) \<Rightarrow> Some (((x3 * 16 + x2) * 16 + x1) * 16 + x0)
           | _ \<Rightarrow> None)
      | _ \<Rightarrow> None)"

text \<open>The decoder's \<open>BACKSLASH\<close> table.\<close>

definition backslash :: "nat \<Rightarrow> nat option" where
  "backslash e =
     (if e = ch CHR 0x22 then Some (ch CHR 0x22)
      else if e = ch CHR 0x5C then Some (ch CHR 0x5C)
      else if e = ch CHR ''/'' then Some (ch CHR ''/'')
      else if e = ch CHR ''b'' then Some 8
      else if e = ch CHR ''f'' then Some 12
      else if e = ch CHR ''n'' then Some 10
      else if e = ch CHR ''r'' then Some 13
      else if e = ch CHR ''t'' then Some 9
      else None)"

definition prepend :: "nat \<Rightarrow> (pystr \<times> pystr) option \<Rightarrow> (pystr \<times> pystr) option" where
  "prepend c res = (case res of None \<Rightarrow> None | Some (x, r) \<Rightarrow> Some (c # x, r))"

text \<open>
  \<open>scanstring\<close> in strict mode, \<open>s\<close> starting after the opening quote: the decoded string
  and the text after the closing quote, or \<open>None\<close> where the library raises
  \<open>JSONDecodeError\<close> (no closing quote, a control character, a bad escape). A high
  surrogate escape followed by a low surrogate escape is one code point.
\<close>

fun scanstring :: "pystr \<Rightarrow> (pystr \<times> pystr) option" where
  "scanstring [] = None"
| "scanstring (c # s) =
     (if c = ch CHR 0x22 then Some ([], s)
      else if c < 32 then None
      else if c \<noteq> ch CHR 0x5C then prepend c (scanstring s)
      else (case s of
              [] \<Rightarrow> None
            | e # s' \<Rightarrow>
                if e \<noteq> ch CHR ''u'' then
                  (case backslash e of None \<Rightarrow> None | Some d \<Rightarrow> prepend d (scanstring s'))
                else
                  (case decode_uXXXX s' of
                     None \<Rightarrow> None
                   | Some uni \<Rightarrow>
                       if 55296 \<le> uni \<and> uni \<le> 56319
                          \<and> take 2 (drop 4 s') = str [CHR 0x5C, CHR ''u''] then
                         (case decode_uXXXX (drop 6 s') of
                            None \<Rightarrow> None
                          | Some uni2 \<Rightarrow>
                              if 56320 \<le> uni2 \<and> uni2 \<le> 57343 then
                                prepend (65536 + ((uni - 55296) * 1024 + (uni2 - 56320)))
                                  (scanstring (drop 10 s'))
                              else prepend uni (scanstring (drop 4 s')))
                       else prepend uni (scanstring (drop 4 s')))))"

text \<open>
  The number scanner: \<open>-?(0|[1-9][0-9]*)(\.[0-9]+)?([eE][-+]?[0-9]+)?\<close>, the longest
  match at the start of the text. Each part below returns what it matched (empty when
  the optional part is absent) and the text left.
\<close>

definition scan_sign :: "pystr \<Rightarrow> pystr \<times> pystr" where
  "scan_sign s =
     (case s of
        c # r \<Rightarrow> if c = ch CHR ''-'' then ([c], r) else ([], s)
      | [] \<Rightarrow> ([], s))"

text \<open>\<open>0|[1-9][0-9]*\<close>; nothing matched when the text does not start with a digit.\<close>

definition scan_intpart :: "pystr \<Rightarrow> pystr \<times> pystr" where
  "scan_intpart s =
     (case s of
        d # r \<Rightarrow>
          if \<not> isdigit d then ([], s)
          else if d = ch CHR ''0'' then ([d], r)
          else (d # takeWhile isdigit r, dropWhile isdigit r)
      | [] \<Rightarrow> ([], s))"

text \<open>\<open>(\.[0-9]+)?\<close>\<close>

definition scan_frac :: "pystr \<Rightarrow> pystr \<times> pystr" where
  "scan_frac s =
     (case s of
        p # f # r \<Rightarrow>
          if p = ch CHR ''.'' \<and> isdigit f
          then (p # f # takeWhile isdigit r, dropWhile isdigit r)
          else ([], s)
      | _ \<Rightarrow> ([], s))"

text \<open>\<open>([eE][-+]?[0-9]+)?\<close>: without a digit behind the letter and the sign, nothing
  is matched.\<close>

definition scan_exp :: "pystr \<Rightarrow> pystr \<times> pystr" where
  "scan_exp s =
     (case s of
        e # r \<Rightarrow>
          if e = ch CHR ''e'' \<or> e = ch CHR ''E'' then
            (let (sg, r') =
                   (case r of
                      g # t \<Rightarrow> if g = ch CHR ''-'' \<or> g = ch CHR ''+'' then ([g], t) else ([], r)
                    | [] \<Rightarrow> ([], r))
             in case r' of
                  x # _ \<Rightarrow>
                    if isdigit x then (e # sg @ takeWhile isdigit r', dropWhile isdigit r')
                    else ([], s)
                | [] \<Rightarrow> ([], s))
          else ([], s)
      | [] \<Rightarrow> ([], s))"

text \<open>With a fraction or an exponent the text is a float, otherwise an int.\<close>

definition match_number :: "'f floatlib \<Rightarrow> pystr \<Rightarrow> ('f json \<times> pystr) option" where
  "match_number F s =
     (let (sign, s1) = scan_sign s;
          (ip, s2) = scan_intpart s1
      in if ip = [] then None
         else
           let (frac, s3) = scan_frac s2;
               (ex, s4) = scan_exp s3
           in if frac \<noteq> [] \<or> ex \<noteq> []
              then Some (JFloat (pyfloat F (sign @ ip @ frac @ ex)), s4)
              else Some (JInt (int_of_text (sign @ ip)), s4))"

text \<open>
  \<open>scan_once\<close> with the array and the object parser. Each takes the text from its current
  position on and returns the value with the text left, or \<open>None\<close> where the library
  raises \<open>JSONDecodeError\<close>. \<open>pc\<close> is the decoder's \<open>parse_constant\<close> hook: true for
  the default one, which reads \<open>NaN\<close>, \<open>Infinity\<close> and \<open>-Infinity\<close> as floats, false
  for one that raises on them. \<open>parse_array\<close> and \<open>parse_object\<close> are the loops of
  \<open>JSONArray\<close> and \<open>JSONObject\<close>, entered behind the opening bracket when the container is
  not empty, with the items read so far.
\<close>

function scan_once :: "bool \<Rightarrow> 'f floatlib \<Rightarrow> pystr \<Rightarrow> ('f json \<times> pystr) option"
  and parse_array :: "bool \<Rightarrow> 'f floatlib \<Rightarrow> pystr \<Rightarrow> 'f json list \<Rightarrow> ('f json \<times> pystr) option"
  and parse_object ::
    "bool \<Rightarrow> 'f floatlib \<Rightarrow> pystr \<Rightarrow> (pystr \<times> 'f json) list \<Rightarrow> ('f json \<times> pystr) option"
where
  "scan_once pc F [] = None"
| "scan_once pc F (c # s) =
     (if c = ch CHR 0x22 then
        (case scanstring s of None \<Rightarrow> None | Some (x, r) \<Rightarrow> Some (JStr x, r))
      else if c = ch CHR ''{'' then
        (case skip_ws s of
           [] \<Rightarrow> None
         | d # r \<Rightarrow> if d = ch CHR ''}'' then Some (JObj [], r) else parse_object pc F (d # r) [])
      else if c = ch CHR ''['' then
        (case skip_ws s of
           [] \<Rightarrow> None
         | d # r \<Rightarrow> if d = ch CHR '']'' then Some (JArr [], r) else parse_array pc F (d # r) [])
      else if c = ch CHR ''n'' \<and> take 3 s = str ''ull'' then Some (JNull, drop 3 s)
      else if c = ch CHR ''t'' \<and> take 3 s = str ''rue'' then Some (JBool True, drop 3 s)
      else if c = ch CHR ''f'' \<and> take 4 s = str ''alse'' then Some (JBool False, drop 4 s)
      else
        (case match_number F (c # s) of
           Some res \<Rightarrow> Some res
         | None \<Rightarrow>
             if \<not> pc then None
             else if c = ch CHR ''N'' \<and> take 2 s = str ''aN''
             then Some (JFloat (pyfloat F (str ''nan'')), drop 2 s)
             else if c = ch CHR ''I'' \<and> take 7 s = str ''nfinity''
             then Some (JFloat (pyfloat F (str ''inf'')), drop 7 s)
             else if c = ch CHR ''-'' \<and> take 8 s = str ''Infinity''
             then Some (JFloat (pyfloat F (str ''-inf'')), drop 8 s)
             else None))"
| "parse_array pc F s acc =
     (case scan_once pc F s of
        None \<Rightarrow> None
      | Some (v, r) \<Rightarrow>
          (case skip_ws r of
             [] \<Rightarrow> None
           | d # r' \<Rightarrow>
               if d = ch CHR '']'' then Some (JArr (acc @ [v]), r')
               else if d = ch CHR '','' then parse_array pc F (skip_ws r') (acc @ [v])
               else None))"
| "parse_object pc F s acc =
     (case s of
        [] \<Rightarrow> None
      | q # s1 \<Rightarrow>
          if q \<noteq> ch CHR 0x22 then None
          else
            (case scanstring s1 of
               None \<Rightarrow> None
             | Some (key, r) \<Rightarrow>
                 (case skip_ws r of
                    [] \<Rightarrow> None
                  | col # r1 \<Rightarrow>
                      if col \<noteq> ch CHR '':'' then None
                      else
                        (case scan_once pc F (skip_ws r1) of
                           None \<Rightarrow> None
                         | Some (v, r2) \<Rightarrow>
                             (case skip_ws r2 of
                                [] \<Rightarrow> None
                              | d # r3 \<Rightarrow>
                                  if d = ch CHR ''}'' then Some (JObj (dict_set acc key v), r3)
                                  else if d = ch CHR '','' then
                                    parse_object pc F (skip_ws r3) (dict_set acc key v)
                                  else None)))))"
  by pat_completeness auto

text \<open>Every scanner returns less text than it was given; the recursion of the three
  parsers above ends for that reason.\<close>

lemma prepend_Some: "prepend c res = Some (x, r) \<Longrightarrow> \<exists>x'. res = Some (x', r)"
  by (auto simp: prepend_def split: option.splits)

lemma scanstring_shorter: "scanstring s = Some (x, r) \<Longrightarrow> length r < length s"
proof (induction s arbitrary: x r rule: scanstring.induct)
  case 1
  then show ?case by simp
next
  case (2 c s)
  then show ?case
    apply (simp split: if_splits list.splits option.splits)
    apply (auto dest!: prepend_Some)
    apply fastforce+
    done
qed

lemma scan_sign_app: "scan_sign s = (a, r) \<Longrightarrow> a @ r = s"
  by (auto simp: scan_sign_def split: list.splits if_splits)
lemma scan_intpart_app: "scan_intpart s = (a, r) \<Longrightarrow> a @ r = s"
  by (auto simp: scan_intpart_def split: list.splits if_splits)
lemma scan_frac_app: "scan_frac s = (a, r) \<Longrightarrow> a @ r = s"
  by (auto simp: scan_frac_def split: list.splits if_splits)
lemma scan_exp_app: "scan_exp s = (a, r) \<Longrightarrow> a @ r = s"
  by (auto simp: scan_exp_def Let_def split: list.splits if_splits prod.splits)

lemma match_number_shorter: "match_number F s = Some (v, r) \<Longrightarrow> length r < length s"
proof -
  assume a: "match_number F s = Some (v, r)"
  obtain sg s1 where 1: "scan_sign s = (sg, s1)" by fastforce
  obtain ip s2 where 2: "scan_intpart s1 = (ip, s2)" by fastforce
  obtain fr s3 where 3: "scan_frac s2 = (fr, s3)" by fastforce
  obtain ex s4 where 4: "scan_exp s3 = (ex, s4)" by fastforce
  from a 1 2 3 4 have ip: "ip \<noteq> []" and r: "r = s4"
    by (auto simp: match_number_def split: if_splits)
  have "s = sg @ ip @ fr @ ex @ s4"
    using scan_sign_app[OF 1] scan_intpart_app[OF 2] scan_frac_app[OF 3] scan_exp_app[OF 4]
    by simp
  then have "length s = length sg + length ip + length fr + length ex + length s4" by simp
  with ip r show ?thesis by (cases ip) auto
qed

lemma skip_ws_le: "length (skip_ws s) \<le> length s"
  by (simp add: skip_ws_def length_dropWhile_le)

lemma skip_ws_Cons_lt: "skip_ws s = d # r \<Longrightarrow> length r < length s"
  using skip_ws_le[of s] by simp

lemma scan_shorter_aux:
  "scan_once_parse_array_parse_object_dom (Inl (pc, F, s)) \<Longrightarrow>
      (\<forall>v r. scan_once pc F s = Some (v, r) \<longrightarrow> length r < length s)"
  "scan_once_parse_array_parse_object_dom (Inr (Inl (pc, F, s', acc))) \<Longrightarrow>
      (\<forall>v r. parse_array pc F s' acc = Some (v, r) \<longrightarrow> length r < length s')"
  "scan_once_parse_array_parse_object_dom (Inr (Inr (pc, F, s'', acc'))) \<Longrightarrow>
      (\<forall>v r. parse_object pc F s'' acc' = Some (v, r) \<longrightarrow> length r < length s'')"
proof (induct rule: scan_once_parse_array_parse_object.pinduct)
  case (1 pc F)
  then show ?case by (simp add: scan_once.psimps)
next
  case (2 pc F c s)
  show ?case
  proof (intro allI impI)
    fix v r assume a: "scan_once pc F (c # s) = Some (v, r)"
    show "length r < length (c # s)"
      using a 2
      apply (simp add: scan_once.psimps split: if_splits option.splits list.splits prod.splits)
      apply (auto dest!: scanstring_shorter match_number_shorter skip_ws_Cons_lt)
      done
  qed
next
  case (3 pc F s acc)
  show ?case
  proof (intro allI impI)
    fix v r assume a: "parse_array pc F s acc = Some (v, r)"
    from a 3(1) obtain v1 r1 where s1: "scan_once pc F s = Some (v1, r1)"
      by (auto simp: parse_array.psimps split: option.splits)
    with 3(2) have l1: "length r1 < length s" by blast
    from a 3(1) s1 obtain d r' where sk: "skip_ws r1 = d # r'"
      by (auto simp: parse_array.psimps split: list.splits)
    have l2: "length r' < length r1" by (rule skip_ws_Cons_lt[OF sk])
    show "length r < length s"
    proof (cases "d = ch CHR '']''")
      case True
      with a 3(1) s1 sk have "r = r'" by (simp add: parse_array.psimps)
      with l1 l2 show ?thesis by simp
    next
      case False
      with a 3(1) s1 sk have dc: "d = ch CHR '',''"
        and rec: "parse_array pc F (skip_ws r') (acc @ [v1]) = Some (v, r)"
        by (auto simp: parse_array.psimps split: if_splits)
      from 3(3)[OF s1 refl sk False dc] rec have "length r < length (skip_ws r')" by blast
      with skip_ws_le[of r'] l1 l2 show ?thesis by simp
    qed
  qed
next
  case (4 pc F s acc)
  show ?case
  proof (intro allI impI)
    fix v r assume a: "parse_object pc F s acc = Some (v, r)"
    from a 4(1) obtain q s1 where s: "s = q # s1" and q: "q = ch CHR 0x22"
      by (auto simp: parse_object.psimps split: list.splits if_splits)
    from a 4(1) s q obtain key r0 where k: "scanstring s1 = Some (key, r0)"
      by (auto simp: parse_object.psimps split: option.splits)
    have l0: "length r0 < length s1" by (rule scanstring_shorter[OF k])
    from a 4(1) s q k obtain col r1 where sk1: "skip_ws r0 = col # r1" and col: "col = ch CHR '':''"
      by (auto simp: parse_object.psimps split: list.splits if_splits)
    have l1: "length r1 < length r0" by (rule skip_ws_Cons_lt[OF sk1])
    from a 4(1) s q k sk1 col obtain v1 r2 where so: "scan_once pc F (skip_ws r1) = Some (v1, r2)"
      by (auto simp: parse_object.psimps split: option.splits)
    have nq: "\<not> q \<noteq> ch CHR 0x22" using q by simp
    have ncol: "\<not> col \<noteq> ch CHR '':''" using col by simp
    from 4(2)[OF s nq k refl sk1 ncol] so have l2: "length r2 < length (skip_ws r1)" by blast
    from a 4(1) s q k sk1 col so obtain d r3 where sk3: "skip_ws r2 = d # r3"
      by (auto simp: parse_object.psimps split: list.splits)
    have l3: "length r3 < length r2" by (rule skip_ws_Cons_lt[OF sk3])
    show "length r < length s"
    proof (cases "d = ch CHR ''}''")
      case True
      with a 4(1) s q k sk1 col so sk3 have "r = r3" by (simp add: parse_object.psimps)
      with l0 l1 l2 l3 skip_ws_le[of r1] s show ?thesis by simp
    next
      case False
      with a 4(1) s q k sk1 col so sk3 have dc: "d = ch CHR '',''"
        and rec: "parse_object pc F (skip_ws r3) (dict_set acc key v1) = Some (v, r)"
        by (auto simp: parse_object.psimps split: if_splits)
      from 4(3)[OF s nq k refl sk1 ncol so refl sk3 False dc] rec
      have "length r < length (skip_ws r3)" by blast
      with skip_ws_le[of r3] skip_ws_le[of r1] l0 l1 l2 l3 s show ?thesis by simp
    qed
  qed
qed

termination scan_once
proof (relation "measure (\<lambda>x. case x of
          Inl (pc, F, s) \<Rightarrow> 2 * length s
        | Inr (Inl (pc, F, s, acc)) \<Rightarrow> 2 * length s + 1
        | Inr (Inr (pc, F, s, acc)) \<Rightarrow> 2 * length s + 1)", goal_cases)
  case 1
  show ?case by simp
next
  case (2 pc F c s d r)
  then show ?case using skip_ws_le[of s] by simp
next
  case (3 pc F c s d r)
  then show ?case using skip_ws_le[of s] by simp
next
  case (4 pc F s acc)
  then show ?case by simp
next
  case (5 pc F s acc x2 v r d r')
  then show ?case
    using scan_shorter_aux(1)[of pc F s] skip_ws_le[of r'] skip_ws_Cons_lt[of r d r']
    by fastforce
next
  case (6 pc F s acc q s1 x2 key r0 col r1)
  then show ?case
    using scanstring_shorter[of s1 key r0] skip_ws_le[of r1] skip_ws_Cons_lt[of r0 col r1]
    by fastforce
next
  case (7 pc F s acc q s1 x2 key r0 col r1 x2a v r2 d r3)
  then show ?case
    using scanstring_shorter[of s1 key r0] skip_ws_le[of r1] skip_ws_Cons_lt[of r0 col r1]
      scan_shorter_aux(1)[of pc F "skip_ws r1"] skip_ws_le[of r3] skip_ws_Cons_lt[of r2 d r3]
    by fastforce
qed

text \<open>
  \<open>JSONDecoder.decode\<close>: whitespace, one value, whitespace, and nothing else. \<open>None\<close> is
  \<open>JSONDecodeError\<close>.
\<close>

definition decode :: "bool \<Rightarrow> 'f floatlib \<Rightarrow> pystr \<Rightarrow> 'f json option" where
  "decode pc F s =
     (case scan_once pc F (skip_ws s) of
        None \<Rightarrow> None
      | Some (obj, r) \<Rightarrow> if skip_ws r = [] then Some obj else None)"

text \<open>\<open>json.loads(s)\<close>, as \<open>response.json()\<close> calls it: the default hook.\<close>

definition json_loads :: "'f floatlib \<Rightarrow> pystr \<Rightarrow> 'f json option" where
  "json_loads F s = decode True F s"

section \<open>The script \<open>UA_MFA_bypass.py\<close>\<close>

subsection \<open>What the script talks to\<close>

text \<open>
  The call \<open>requests.post(url, headers=..., data=...)\<close> is recorded as a \<open>request\<close>; what
  comes back is a \<open>response\<close>, of which the script reads \<open>status_code\<close>, \<open>text\<close> and
  \<open>json()\<close>. The body is modelled after decoding, as the string \<open>response.text\<close>.
\<close>

record request =
  req_url :: pystr
  req_headers :: "(pystr \<times> pystr) list"
  req_data :: "(pystr \<times> pystr) list"

record response =
  status_code :: int
  resp_text :: pystr

text \<open>The exceptions that can leave the script: one raised by \<open>requests.post\<close> (no
  response at all), and the \<open>JSONDecodeError\<close> of \<open>response.json()\<close>.\<close>

datatype exn = RequestException | JSONDecodeError

text \<open>\<open>response.json()\<close>: \<open>None\<close> where it raises.\<close>

definition response_json :: "'f floatlib \<Rightarrow> response \<Rightarrow> 'f json option" where
  "response_json F r = json_loads F (resp_text r)"

text \<open>
  The world around the script: the characters written to standard output, the characters
  written to the controlling terminal (where \<open>getpass\<close> prompts; it never writes to
  standard output and does not echo), the files of the working directory by name, and
  the calls of \<open>requests.post\<close> made so far, each with its arguments. The working directory
  is taken to be writable.
\<close>

record world =
  stdout :: pystr
  tty :: pystr
  files :: "pystr \<rightharpoonup> pystr"
  posted :: "request list"

text \<open>\<open>print(s)\<close> writes \<open>s\<close> and a line feed.\<close>

definition print :: "pystr \<Rightarrow> world \<Rightarrow> world" where
  "print s w = w\<lparr>stdout := stdout w @ s @ [10]\<rparr>"

text \<open>\<open>input(prompt)\<close> and \<open>getpass(prompt)\<close> write their prompt; what the operator types
  is an argument of \<open>main\<close>.\<close>

definition input_prompt :: "pystr \<Rightarrow> world \<Rightarrow> world" where
  "input_prompt p w = w\<lparr>stdout := stdout w @ p\<rparr>"

definition getpass_prompt :: "pystr \<Rightarrow> world \<Rightarrow> world" where
  "getpass_prompt p w = w\<lparr>tty := tty w @ p\<rparr>"

text \<open>\<open>with open(name, "w") as f: json.dump(obj, f, indent=n)\<close>: the file is created or
  truncated, the text written, the file closed.\<close>

definition write_file :: "pystr \<Rightarrow> pystr \<Rightarrow> world \<Rightarrow> world" where
  "write_file name content w = w\<lparr>files := (files w)(name \<mapsto> content)\<rparr>"

subsection \<open>The script's constants\<close>

definition headers :: "(pystr \<times> pystr) list" where
  "headers =
     [(str ''User-Agent'',
       str ''Mozilla/5.0 (PlayStation 4 3.11) AppleWebKit/537.73 (KHTML, like Gecko)''),
      (str ''Content-Type'', str ''application/x-www-form-urlencoded'')]"

definition data :: "pystr \<Rightarrow> pystr \<Rightarrow> (pystr \<times> pystr) list" where
  "data email password =
     [(str ''resource'', str ''https://management.azure.com''),
      (str ''client_id'', str ''1b730954-1685-4b74-9bfd-dac224a7b894''),
      (str ''grant_type'', str ''password''),
      (str ''username'', email),
      (str ''password'', password),
      (str ''scope'', str ''openid'')]"

definition token_url :: pystr where
  "token_url = str ''https://login.microsoftonline.com/common/oauth2/token''"

definition token_file :: pystr where
  "token_file = str ''token_scope.json''"

text \<open>The three messages. Their first characters are a line feed and a symbol outside
  ASCII: U+2705 (9989), U+1F4BE (128190) and U+274C (10060).\<close>

definition msg_retrieved :: pystr where
  "msg_retrieved = [10, 9989] @ str '' Tokens retrieved successfully.'' @ [10]"

definition msg_saved :: pystr where
  "msg_saved = [10, 128190] @ str '' Tokens saved to token_scope.json''"

definition msg_failed :: "int \<Rightarrow> pystr" where
  "msg_failed status = [10, 10060] @ str '' Login failed ('' @ repr_int status @ str ''):'' @ [10]"

subsection \<open>The script, top to bottom\<close>

text \<open>
  \<open>main F post email password w\<close> runs the script in the world \<open>w\<close>: \<open>post\<close> is what a
  call of \<open>requests.post\<close> comes back with (the response it returns, or the exception it
  raises), \<open>email\<close>
  and \<open>password\<close> are what the operator types at the two prompts. The result is the world
  afterwards and the exception that ended the script, if one did.
\<close>

definition main ::
  "'f floatlib \<Rightarrow> (request \<Rightarrow> exn + response) \<Rightarrow> pystr \<Rightarrow> pystr \<Rightarrow> world
     \<Rightarrow> world \<times> exn option" where
  "main F post email password w0 =
     (let w1 = input_prompt (str ''Enter username (email): '') w0;
          w2 = getpass_prompt (str ''Enter password: '') w1;
          req = \<lparr>req_url = token_url, req_headers = headers, req_data = data email password\<rparr>;
          w3 = w2\<lparr>posted := posted w2 @ [req]\<rparr>
      in case post req of
           Inl e \<Rightarrow> (w3, Some e)
         | Inr response \<Rightarrow>
             if status_code response = 200 then
               (let w4 = print msg_retrieved w3
                in case response_json F response of
                     None \<Rightarrow> (w4, Some JSONDecodeError)
                   | Some token_data \<Rightarrow>
                       (let w5 = print (json_dumps F 7 token_data) w4;
                            w6 = write_file token_file (json_dumps F 2 token_data) w5;
                            w7 = print msg_saved w6
                        in (w7, None)))
             else
               (let w4 = print (msg_failed (status_code response)) w3
                in case response_json F response of
                     Some error_data \<Rightarrow> (print (json_dumps F 2 error_data) w4, None)
                   | None \<Rightarrow> (print (resp_text response) w4, None)))"

text \<open>A float library for running the model on concrete bodies: a float is kept as the
  text it was read from, which is exact for a text that is already in \<open>repr\<close> form.\<close>

definition literal_floats :: "pystr floatlib" where
  "literal_floats =
     \<lparr>pyfloat = (\<lambda>s. s), float_repr = (\<lambda>x. x), isnan = (\<lambda>x. x = str ''nan'')\<rparr>"

text \<open>The one call the script makes: \<open>requests.post(token_url, headers=headers, data=data)\<close>.\<close>

definition the_request :: "pystr \<Rightarrow> pystr \<Rightarrow> request" where
  "the_request email password =
     \<lparr>req_url = token_url, req_headers = headers, req_data = data email password\<rparr>"

text \<open>A world to start from: nothing written yet, an empty working directory.\<close>

definition world0 :: world where
  "world0 = \<lparr>stdout = [], tty = [], files = Map.empty, posted = []\<rparr>"

subsection \<open>Beneath \<open>requests.post\<close>: redirects\<close>























section \<open>Decoding what the encoder wrote\<close>

text \<open>What may follow a value in the encoder's output: nothing, a comma or a line feed.\<close>
definition delim :: "pystr \<Rightarrow> bool" where
  "delim rest = (case rest of [] \<Rightarrow> True | c # _ \<Rightarrow> c = 44 \<or> c = 10)"

lemma delim_takeWhile: "delim rest \<Longrightarrow> takeWhile isdigit (xs @ rest) = takeWhile isdigit xs"
  by (induction xs) (auto simp: delim_def isdigit_def split: list.splits)

lemma delim_dropWhile: "delim rest \<Longrightarrow> dropWhile isdigit (xs @ rest) = dropWhile isdigit xs @ rest"
  by (induction xs) (auto simp: delim_def isdigit_def split: list.splits)

lemma scan_sign_append:
  "delim rest \<Longrightarrow> scan_sign s = (a, r) \<Longrightarrow> scan_sign (s @ rest) = (a, r @ rest)"
  by (auto simp: scan_sign_def delim_def split: list.splits if_splits)

lemma scan_intpart_append:
  "delim rest \<Longrightarrow> scan_intpart s = (a, r) \<Longrightarrow> scan_intpart (s @ rest) = (a, r @ rest)"
  by (auto simp: scan_intpart_def delim_takeWhile delim_dropWhile split: list.splits if_splits)
     (auto simp: delim_def isdigit_def split: list.splits)

lemma scan_frac_append:
  "delim rest \<Longrightarrow> scan_frac s = (a, r) \<Longrightarrow> scan_frac (s @ rest) = (a, r @ rest)"
  by (auto simp: scan_frac_def delim_takeWhile delim_dropWhile split: list.splits if_splits)
     (auto simp: delim_def isdigit_def split: list.splits)

lemma scan_exp_append:
  "delim rest \<Longrightarrow> scan_exp s = (a, r) \<Longrightarrow> scan_exp (s @ rest) = (a, r @ rest)"
  unfolding scan_exp_def
  apply (cases s)
   apply (auto simp: delim_def split: list.splits)[1]
  subgoal for e r0
    apply (cases r0)
     apply (auto simp: delim_def isdigit_def split: list.splits if_splits)[1]
    subgoal for g t
      apply (cases t)
       apply (auto simp: delim_def isdigit_def delim_takeWhile delim_dropWhile split: list.splits if_splits)[1]
      apply (auto simp: delim_takeWhile delim_dropWhile Let_def split: if_splits)
      done
    done
  done

lemma match_number_append:
  assumes "delim rest" and "match_number F t = Some (v, r)"
  shows "match_number F (t @ rest) = Some (v, r @ rest)"
proof -
  obtain sg s1 where 1: "scan_sign t = (sg, s1)" by fastforce
  obtain ip s2 where 2: "scan_intpart s1 = (ip, s2)" by fastforce
  obtain fr s3 where 3: "scan_frac s2 = (fr, s3)" by fastforce
  obtain ex s4 where 4: "scan_exp s3 = (ex, s4)" by fastforce
  note a = scan_sign_append[OF assms(1) 1] scan_intpart_append[OF assms(1) 2]
    scan_frac_append[OF assms(1) 3] scan_exp_append[OF assms(1) 4]
  from assms(2) 1 2 3 4 show ?thesis
    by (auto simp: match_number_def a split: if_splits)
qed


lemma digits_isdigit: "c \<in> set (digits n) \<Longrightarrow> isdigit c"
proof (induction n arbitrary: c rule: digits.induct)
  case (1 n)
  show ?case
  proof (cases "n < 10")
    case True
    with 1(2) show ?thesis by (simp add: digits.simps[of n] isdigit_def)
  next
    case False
    with 1 show ?thesis by (auto simp: digits.simps[of n] isdigit_def)
  qed
qed

lemma digits_value_snoc: "digits_value (xs @ [d]) = 10 * digits_value xs + (d - 48)"
  by (simp add: digits_value_def)

lemma digits_value_digits: "digits_value (digits n) = n"
proof (induction n rule: digits.induct)
  case (1 n)
  show ?case
  proof (cases "n < 10")
    case True
    then show ?thesis by (simp add: digits.simps[of n] digits_value_def)
  next
    case False
    with 1 show ?thesis by (simp add: digits.simps[of n] digits_value_snoc)
  qed
qed

lemma digits_shape: "\<exists>d ds. digits n = d # ds \<and> (d = 48 \<longrightarrow> n = 0 \<and> ds = [])"
proof (induction n rule: digits.induct)
  case (1 n)
  show ?case
  proof (cases "n < 10")
    case True
    then show ?thesis by (simp add: digits.simps[of n])
  next
    case False
    then have "n div 10 \<noteq> 0" by simp
    with 1 False show ?thesis by (auto simp: digits.simps[of n])
  qed
qed

lemma scan_intpart_digits: "scan_intpart (digits n) = (digits n, [])"
proof -
  obtain d ds where ds: "digits n = d # ds" and z: "d = 48 \<longrightarrow> n = 0 \<and> ds = []"
    using digits_shape by blast
  have all: "\<forall>c\<in>set (d # ds). isdigit c" using digits_isdigit[of _ n] ds by simp
  then have "takeWhile isdigit ds = ds" "dropWhile isdigit ds = []" by simp_all
  with ds z all show ?thesis by (auto simp: scan_intpart_def)
qed

lemma match_number_repr_int: "match_number F (repr_int i) = Some (JInt i, [])"
proof (cases "i < 0")
  case True
  have s: "scan_sign (45 # digits (nat (- i))) = ([45], digits (nat (- i)))"
    by (simp add: scan_sign_def)
  obtain d ds where ds: "digits (nat (- i)) = d # ds" using digits_shape by blast
  from True show ?thesis
    by (simp add: match_number_def repr_int_def s scan_intpart_digits scan_frac_def scan_exp_def
        int_of_text_def digits_value_digits ds[symmetric]) (simp add: ds)
next
  case False
  obtain d ds where ds: "digits (nat i) = d # ds" using digits_shape by blast
  have "isdigit d" using digits_isdigit[of d "nat i"] ds by simp
  then have d: "d \<noteq> 45" by (simp add: isdigit_def)
  then have s: "scan_sign (digits (nat i)) = ([], digits (nat i))"
    by (simp add: scan_sign_def ds)
  from False d show ?thesis
    apply (simp add: match_number_def repr_int_def s scan_intpart_digits scan_frac_def scan_exp_def)
    apply (simp add: int_of_text_def ds)
    apply (simp add: ds[symmetric] digits_value_digits)
    done
qed


definition high_surrogate :: "nat \<Rightarrow> bool" where
  "high_surrogate c = (55296 \<le> c \<and> c \<le> 56319)"

definition low_surrogate :: "nat \<Rightarrow> bool" where
  "low_surrogate c = (56320 \<le> c \<and> c \<le> 57343)"

text \<open>A string the decoder can have returned: code points below 0x110000, and no high
  surrogate followed by a low one.\<close>
fun wf_str :: "pystr \<Rightarrow> bool" where
  "wf_str [] = True"
| "wf_str [a] = (a < 1114112)"
| "wf_str (a # b # s) = (a < 1114112 \<and> \<not> (high_surrogate a \<and> low_surrogate b) \<and> wf_str (b # s))"

lemma hexval_hexdigit: "d < 16 \<Longrightarrow> hexval (hexdigit d) = Some d"
  by (auto simp: hexval_def hexdigit_def)

lemma hex4_value:
  fixes n :: nat
  assumes "n < 65536"
  shows "((n div 4096 mod 16 * 16 + n div 256 mod 16) * 16 + n div 16 mod 16) * 16 + n mod 16 = n"
proof -
  define a where "a = n div 16"
  define b where "b = a div 16"
  define c where "c = b div 16"
  have n256: "n div 256 = b" unfolding b_def a_def by (simp add: div_mult2_eq[symmetric])
  have n4096: "n div 4096 = c" unfolding c_def b_def a_def by (simp add: div_mult2_eq[symmetric])
  have "c < 16" using assms n4096 by (simp add: less_mult_imp_div_less)
  then have c: "c mod 16 = c" by simp
  have 1: "c * 16 + b mod 16 = b" unfolding c_def by simp
  have 2: "b * 16 + a mod 16 = a" unfolding b_def by simp
  have 3: "a * 16 + n mod 16 = n" unfolding a_def by simp
  show ?thesis
    by (simp only: n256 n4096 c 1 2 3 a_def[symmetric])
qed

lemma decode_hex4: "n < 65536 \<Longrightarrow> decode_uXXXX (hex4 n @ r) = Some n"
  using hex4_value[of n]
  by (simp add: decode_uXXXX_def hex4_def hexval_hexdigit)


text \<open>After a lone high surrogate escape the decoder looks ahead; it goes on with the
  text as it is unless a low surrogate escape follows.\<close>
definition ok_after :: "pystr \<Rightarrow> bool" where
  "ok_after t = (take 2 t \<noteq> [92, 117]
     \<or> (\<exists>u. decode_uXXXX (drop 2 t) = Some u \<and> \<not> low_surrogate u))"

lemma surrogate_pair_value:
  fixes n :: nat
  assumes "n < 1048576"
  shows "(n div 1024) mod 1024 * 1024 + n mod 1024 = n"
proof -
  have "n div 1024 < 1024" using assms by (simp add: less_mult_imp_div_less)
  then show ?thesis by simp
qed

lemma str_bs: "str [CHR 0x5C, c] = [92, of_char c]"
  by (simp add: str_def)

lemma scanstring_escape_char:
  assumes "c < 1114112" and "high_surrogate c \<longrightarrow> ok_after t"
  shows "scanstring (escape_char c @ t) = prepend c (scanstring t)"
proof -
  consider (bs) "c = 92" | (qu) "c = 34" | (plain) "32 \<le> c" "c \<le> 126" "c \<noteq> 92" "c \<noteq> 34"
    | (named) "c = 8 \<or> c = 12 \<or> c = 10 \<or> c = 13 \<or> c = 9"
    | (bmp) "c < 32 \<or> 126 < c" "c < 65536" "c \<noteq> 8" "c \<noteq> 12" "c \<noteq> 10" "c \<noteq> 13" "c \<noteq> 9"
    | (astral) "65536 \<le> c"
    by linarith
  then show ?thesis
  proof cases
    case bs
    then show ?thesis by (simp add: escape_char_def str_bs backslash_def)
  next
    case qu
    then show ?thesis by (simp add: escape_char_def str_bs backslash_def)
  next
    case plain
    then show ?thesis by (simp add: escape_char_def)
  next
    case named
    then show ?thesis by (auto simp: escape_char_def str_bs backslash_def)
  next
    case bmp
    then have e: "escape_char c = [92, 117] @ hex4 c"
      by (auto simp: escape_char_def str_bs)
    obtain h0 h1 h2 h3 where h: "hex4 c = [h0, h1, h2, h3]" by (simp add: hex4_def)
    have d: "decode_uXXXX (h0 # h1 # h2 # h3 # t) = Some c"
      using decode_hex4[OF bmp(2), of t] by (simp add: h)
    show ?thesis
    proof (cases "55296 \<le> c \<and> c \<le> 56319 \<and> take 2 t = [92, 117]")
      case True
      with assms(2) obtain u where "decode_uXXXX (drop 2 t) = Some u" "\<not> low_surrogate u"
        by (auto simp: ok_after_def high_surrogate_def)
      with True show ?thesis
        by (auto simp add: e h d str_bs low_surrogate_def)
    next
      case False
      then show ?thesis by (auto simp add: e h d str_bs)
    qed
  next
    case astral
    define n where "n = c - 65536"
    define s1 where "s1 = 55296 + (n div 1024) mod 1024"
    define s2 where "s2 = 56320 + n mod 1024"
    have n: "n < 1048576" using assms(1) astral by (simp add: n_def)
    have e: "escape_char c = [92, 117] @ hex4 s1 @ [92, 117] @ hex4 s2"
      using astral by (simp add: escape_char_def str_bs Let_def n_def s1_def s2_def)
    have b1: "55296 \<le> s1" "s1 \<le> 56319" "s1 < 65536" by (simp_all add: s1_def)
    have b2: "56320 \<le> s2" "s2 \<le> 57343" "s2 < 65536" by (simp_all add: s2_def)
    obtain h0 h1 h2 h3 where h: "hex4 s1 = [h0, h1, h2, h3]" by (simp add: hex4_def)
    obtain g0 g1 g2 g3 where g: "hex4 s2 = [g0, g1, g2, g3]" by (simp add: hex4_def)
    have d1: "decode_uXXXX (h0 # h1 # h2 # h3 # 92 # 117 # g0 # g1 # g2 # g3 # t) = Some s1"
      using decode_hex4[OF b1(3), of "92 # 117 # g0 # g1 # g2 # g3 # t"] by (simp add: h)
    have d2: "decode_uXXXX (g0 # g1 # g2 # g3 # t) = Some s2"
      using decode_hex4[OF b2(3), of t] by (simp add: g)
    have v: "65536 + ((s1 - 55296) * 1024 + (s2 - 56320)) = c"
      using surrogate_pair_value[OF n] astral by (simp add: s1_def s2_def n_def)
    have v': "9216 + ((s1 - 55296) * 1024 + s2) = c"
      using v b2 by simp
    show ?thesis
      using b1 b2 by (simp add: e h g d1 d2 v v' str_bs)
  qed
qed


lemma ok_after_escape_char:
  assumes "\<not> low_surrogate b"
  shows "ok_after (escape_char b @ t)"
proof -
  consider (bs) "b = 92" | (qu) "b = 34" | (plain) "32 \<le> b" "b \<le> 126" "b \<noteq> 92" "b \<noteq> 34"
    | (named) "b = 8 \<or> b = 12 \<or> b = 10 \<or> b = 13 \<or> b = 9"
    | (bmp) "b < 32 \<or> 126 < b" "b < 65536" "b \<noteq> 8" "b \<noteq> 12" "b \<noteq> 10" "b \<noteq> 13" "b \<noteq> 9"
    | (astral) "65536 \<le> b"
    by linarith
  then show ?thesis
  proof cases
    case bmp
    then have e: "escape_char b = [92, 117] @ hex4 b"
      by (auto simp: escape_char_def str_bs)
    from decode_hex4[OF bmp(2), of t] assms show ?thesis
      by (simp add: ok_after_def e)
  next
    case astral
    define n where "n = b - 65536"
    define s1 where "s1 = 55296 + (n div 1024) mod 1024"
    have b1: "s1 \<le> 56319" "s1 < 65536" by (simp_all add: s1_def)
    have "\<exists>x. escape_char b = [92, 117] @ hex4 s1 @ x"
      using astral by (simp add: escape_char_def str_bs Let_def n_def s1_def)
    then obtain x where e: "escape_char b = [92, 117] @ hex4 s1 @ x" by blast
    from decode_hex4[OF b1(2), of "x @ t"] b1 show ?thesis
      by (simp add: ok_after_def e low_surrogate_def)
  qed (auto simp: ok_after_def escape_char_def str_bs)
qed

lemma scanstring_escaped:
  "wf_str s \<Longrightarrow> scanstring (concat (map escape_char s) @ 34 # rest) = Some (s, rest)"
proof (induction s rule: wf_str.induct)
  case 1
  show ?case by simp
next
  case (2 a)
  have "ok_after (34 # rest)" by (simp add: ok_after_def)
  with 2 have "scanstring (escape_char a @ 34 # rest) = prepend a (scanstring (34 # rest))"
    by (intro scanstring_escape_char) simp_all
  then show ?case by (simp add: prepend_def)
next
  case (3 a b s)
  from 3(2) have wf: "wf_str (b # s)" and a: "a < 1114112"
    and np: "high_surrogate a \<longrightarrow> \<not> low_surrogate b" by auto
  have "high_surrogate a \<longrightarrow> ok_after (escape_char b @ concat (map escape_char s) @ 34 # rest)"
    using np ok_after_escape_char by blast
  with a have "scanstring (escape_char a @ escape_char b @ concat (map escape_char s) @ 34 # rest)
      = prepend a (scanstring (escape_char b @ concat (map escape_char s) @ 34 # rest))"
    by (intro scanstring_escape_char) simp_all
  with 3(1)[OF wf] show ?case by (simp add: prepend_def)
qed

lemma scan_once_string:
  "wf_str s \<Longrightarrow> scan_once pc F (encode_basestring_ascii s @ rest) = Some (JStr s, rest)"
  using scanstring_escaped[of s rest] by (simp add: encode_basestring_ascii_def)


declare parse_array.simps [simp del] parse_object.simps [simp del]

text \<open>A float the decoder reads back from what the encoder writes for it.\<close>
definition float_ok :: "bool \<Rightarrow> 'f floatlib \<Rightarrow> 'f \<Rightarrow> bool" where
  "float_ok pc F x =
     (if isnan F x then pc \<and> pyfloat F (str ''nan'') = x
      else if x = pyfloat F (str ''inf'') \<or> x = pyfloat F (str ''-inf'') then pc
      else match_number F (float_repr F x) = Some (JFloat x, []))"

fun wf_json :: "'f json \<Rightarrow> bool" where
  "wf_json (JStr s) = wf_str s"
| "wf_json (JArr vs) = (\<forall>v\<in>set vs. wf_json v)"
| "wf_json (JObj kvs) = (distinct (map fst kvs) \<and> (\<forall>(k, v)\<in>set kvs. wf_str k \<and> wf_json v))"
| "wf_json _ = True"

lemma match_number_start:
  assumes "match_number F t = Some (v, r)"
  shows "\<exists>c u. t = c # u \<and> (c = 45 \<or> isdigit c)"
proof -
  obtain sg s1 where 1: "scan_sign t = (sg, s1)" by fastforce
  obtain ip s2 where 2: "scan_intpart s1 = (ip, s2)" by fastforce
  from assms 1 2 have ip: "ip \<noteq> []" by (auto simp: match_number_def split: if_splits prod.splits)
  from 2 ip obtain d u where s1: "s1 = d # u" and d: "isdigit d"
    by (auto simp: scan_intpart_def split: list.splits if_splits)
  from 1 s1 d show ?thesis
    by (auto simp: scan_sign_def split: list.splits if_splits)
qed

lemma match_number_not_digit: "\<not> isdigit c \<Longrightarrow> c \<noteq> 45 \<Longrightarrow> match_number F (c # s) = None"
  using match_number_start[of F "c # s"] by (cases "match_number F (c # s)") auto

lemma match_number_minus_letter: "\<not> isdigit d \<Longrightarrow> match_number F (45 # d # s) = None"
  by (simp add: match_number_def scan_sign_def scan_intpart_def)

lemma scan_once_float:
  assumes "float_ok pc F x" and "delim rest"
  shows "scan_once pc F (floatstr F x @ rest) = Some (JFloat x, rest)"
proof -
  consider (nan) "isnan F x" | (inf) "\<not> isnan F x" "x = pyfloat F (str ''inf'')"
    | (ninf) "\<not> isnan F x" "x \<noteq> pyfloat F (str ''inf'')" "x = pyfloat F (str ''-inf'')"
    | (lit) "\<not> isnan F x" "x \<noteq> pyfloat F (str ''inf'')" "x \<noteq> pyfloat F (str ''-inf'')"
    by blast
  then show ?thesis
  proof cases
    case nan
    with assms(1) have "pc" "pyfloat F (str ''nan'') = x" by (simp_all add: float_ok_def)
    moreover have "match_number F (78 # 97 # 78 # rest) = None"
      by (rule match_number_not_digit) (simp_all add: isdigit_def)
    ultimately show ?thesis using nan
      by (simp add: floatstr_def) (simp add: str_def)
  next
    case inf
    with assms(1) have "pc" by (simp add: float_ok_def)
    moreover have "match_number F (73 # 110 # 102 # 105 # 110 # 105 # 116 # 121 # rest) = None"
      by (rule match_number_not_digit) (simp_all add: isdigit_def)
    ultimately show ?thesis using inf
      by (simp add: floatstr_def) (simp add: str_def)
  next
    case ninf
    with assms(1) have "pc" by (simp add: float_ok_def)
    moreover have "match_number F (45 # 73 # 110 # 102 # 105 # 110 # 105 # 116 # 121 # rest) = None"
      by (rule match_number_minus_letter) (simp add: isdigit_def)
    ultimately show ?thesis using ninf
      by (simp add: floatstr_def) (simp add: str_def)
  next
    case lit
    with assms(1) have m: "match_number F (float_repr F x) = Some (JFloat x, [])"
      by (simp add: float_ok_def)
    from match_number_start[OF m] obtain c u where t: "float_repr F x = c # u"
      and c: "c = 45 \<or> isdigit c" by blast
    from match_number_append[OF assms(2) m]
    have "match_number F (c # u @ rest) = Some (JFloat x, rest)" by (simp add: t)
    with c lit show ?thesis
      by (auto simp: floatstr_def t isdigit_def)
  qed
qed

lemma scan_once_int:
  assumes "delim rest"
  shows "scan_once pc F (repr_int i @ rest) = Some (JInt i, rest)"
proof -
  have m: "match_number F (repr_int i) = Some (JInt i, [])" by (rule match_number_repr_int)
  from match_number_start[OF m] obtain c u where t: "repr_int i = c # u"
    and c: "c = 45 \<or> isdigit c" by blast
  from match_number_append[OF assms m]
  have "match_number F (c # u @ rest) = Some (JInt i, rest)" by (simp add: t)
  with c show ?thesis
    by (auto simp: t isdigit_def)
qed


lemma skip_ws_newline_indent: "skip_ws (newline_indent n l @ t) = skip_ws t"
  by (simp add: skip_ws_def newline_indent_def is_ws_def dropWhile_append)

lemma skip_ws_start: "\<not> is_ws d \<Longrightarrow> skip_ws (d # r) = d # r"
  by (simp add: skip_ws_def)

lemma delim_newline_indent: "delim (newline_indent n l @ t)"
  by (simp add: delim_def newline_indent_def)

text \<open>How the text of a value starts: not with whitespace, and not with a closing
  bracket.\<close>
lemma iterencode_start:
  assumes "\<forall>x\<in>set_json v. float_ok pc F x"
  shows "\<exists>d r. iterencode F n l v = d # r \<and> \<not> is_ws d \<and> d \<noteq> 93"
proof (cases v)
  case JNull
  then show ?thesis by (simp add: str_def is_ws_def)
next
  case (JBool b)
  then show ?thesis by (simp add: str_def is_ws_def)
next
  case (JInt i)
  from match_number_start[OF match_number_repr_int[of F i]] JInt show ?thesis
    by (auto simp: is_ws_def isdigit_def)
next
  case (JFloat x)
  with assms have ok: "float_ok pc F x" by simp
  show ?thesis
  proof (cases "isnan F x \<or> x = pyfloat F (str ''inf'') \<or> x = pyfloat F (str ''-inf'')")
    case True
    with JFloat show ?thesis by (auto simp: floatstr_def str_def is_ws_def)
  next
    case False
    with ok have "match_number F (float_repr F x) = Some (JFloat x, [])"
      by (simp add: float_ok_def)
    from match_number_start[OF this] False JFloat show ?thesis
      by (auto simp: floatstr_def is_ws_def isdigit_def)
  qed
next
  case (JStr s)
  then show ?thesis by (simp add: encode_basestring_ascii_def is_ws_def)
next
  case (JArr vs)
  then show ?thesis by (simp add: str_def is_ws_def)
next
  case (JObj kvs)
  then show ?thesis by (simp add: str_def is_ws_def)
qed

lemma dict_set_new: "k \<notin> fst ` set d \<Longrightarrow> dict_set d k v = d @ [(k, v)]"
  by (induction d k v rule: dict_set.induct) auto

lemma parse_array_items:
  assumes "vs \<noteq> []"
    and "\<And>v rest. v \<in> set vs \<Longrightarrow> delim rest \<Longrightarrow> scan_once pc F (enc v @ rest) = Some (v, rest)"
    and "\<And>v. v \<in> set vs \<Longrightarrow> \<exists>d r. enc v = d # r \<and> \<not> is_ws d \<and> d \<noteq> 93"
  shows "parse_array pc F (join (44 # newline_indent n l') (map enc vs)
            @ newline_indent n l @ 93 # rest) acc = Some (JArr (acc @ vs), rest)"
  using assms
proof (induction vs arbitrary: acc)
  case Nil
  then show ?case by simp
next
  case (Cons v ws)
  show ?case
  proof (cases ws)
    case Nil
    have "scan_once pc F (enc v @ newline_indent n l @ 93 # rest)
            = Some (v, newline_indent n l @ 93 # rest)"
      by (rule Cons.prems(2)) (simp_all add: delim_newline_indent)
    then show ?thesis
      by (simp add: Nil parse_array.simps[of pc F "enc v @ _"] skip_ws_newline_indent
          skip_ws_start is_ws_def)
  next
    case (Cons w ws')
    let ?tail = "join (44 # newline_indent n l') (map enc (w # ws')) @ newline_indent n l @ 93 # rest"
    have sc: "scan_once pc F (enc v @ 44 # newline_indent n l' @ ?tail)
            = Some (v, 44 # newline_indent n l' @ ?tail)"
      by (rule Cons.prems(2)) (simp_all add: delim_def)
    from Cons.prems(3)[of w] obtain d r where d: "enc w = d # r" "\<not> is_ws d" "d \<noteq> 93"
      using Cons by auto
    have st: "skip_ws ?tail = ?tail"
      by (cases ws') (simp_all add: d skip_ws_start)
    have ih: "parse_array pc F ?tail (acc @ [v]) = Some (JArr ((acc @ [v]) @ w # ws'), rest)"
      using Cons.IH[of "acc @ [v]"] Cons.prems(2,3) Cons by simp
    show ?thesis
      apply (simp add: Cons del: join.simps)
      apply (simp only: join.simps append_assoc append_Cons)
      apply (subst parse_array.simps)
      apply (simp add: sc[simplified] skip_ws_start is_ws_def skip_ws_newline_indent
          st[simplified] ih[simplified] del: join.simps)
      done
  qed
qed


lemma scanstring_key:
  "wf_str k \<Longrightarrow> scanstring (tl (encode_basestring_ascii k) @ t) = Some (k, t)"
  using scanstring_escaped[of k t] by (simp add: encode_basestring_ascii_def)

lemma parse_object_step:
  assumes "wf_str k" and "scan_once pc F (ev @ t) = Some (v, t)"
    and "\<exists>d r. ev = d # r \<and> \<not> is_ws d" and "skip_ws t = c # t'"
  shows "parse_object pc F (encode_basestring_ascii k @ 58 # 32 # ev @ t) acc =
           (if c = 125 then Some (JObj (dict_set acc k v), t')
            else if c = 44 then parse_object pc F (skip_ws t') (dict_set acc k v)
            else None)"
proof -
  have q: "encode_basestring_ascii k @ 58 # 32 # ev @ t
             = 34 # (tl (encode_basestring_ascii k) @ 58 # 32 # ev @ t)"
    by (simp add: encode_basestring_ascii_def)
  have sk1: "skip_ws (58 # 32 # ev @ t) = 58 # 32 # ev @ t"
    by (simp add: skip_ws_def is_ws_def)
  have sk2: "skip_ws (32 # ev @ t) = ev @ t"
    using assms(3) by (auto simp: skip_ws_def is_ws_def)
  show ?thesis
    unfolding q
    by (subst parse_object.simps)
      (simp add: scanstring_key[OF assms(1)] sk1 sk2 assms(2) assms(4))
qed

lemma parse_object_items:
  assumes "kvs \<noteq> []"
    and "\<And>k v rest. (k, v) \<in> set kvs \<Longrightarrow> delim rest
            \<Longrightarrow> scan_once pc F (enc v @ rest) = Some (v, rest)"
    and "\<And>k v. (k, v) \<in> set kvs \<Longrightarrow> \<exists>d r. enc v = d # r \<and> \<not> is_ws d \<and> d \<noteq> 93"
    and "\<And>k v. (k, v) \<in> set kvs \<Longrightarrow> wf_str k"
    and "distinct (map fst (acc @ kvs))"
  shows "parse_object pc F
           (join (44 # newline_indent n l')
              (map (\<lambda>(k, v). encode_basestring_ascii k @ 58 # 32 # enc v) kvs)
            @ newline_indent n l @ 125 # rest) acc = Some (JObj (acc @ kvs), rest)"
  using assms
proof (induction kvs arbitrary: acc)
  case Nil
  then show ?case by simp
next
  case (Cons kv ws)
  note IH = Cons.IH and prems = Cons.prems
  obtain k v where kv: "kv = (k, v)" by (cases kv)
  have wfk: "wf_str k" using Cons.prems(4)[of k v] kv by simp
  have new: "k \<notin> fst ` set acc" using Cons.prems(5) kv by auto
  have st: "\<exists>d r. enc v = d # r \<and> \<not> is_ws d" using Cons.prems(3)[of k v] kv by auto
  show ?case
  proof (cases ws)
    case Nil
    have sc: "scan_once pc F (enc v @ newline_indent n l @ 125 # rest)
            = Some (v, newline_indent n l @ 125 # rest)"
      by (rule Cons.prems(2)[of k]) (simp_all add: kv delim_newline_indent)
    have sk: "skip_ws (newline_indent n l @ 125 # rest) = 125 # rest"
      by (simp add: skip_ws_newline_indent skip_ws_start is_ws_def)
    from parse_object_step[OF wfk sc st sk, of acc] show ?thesis
      by (simp add: Nil kv dict_set_new[OF new])
  next
    case (Cons kw ws')
    obtain k' w where kw: "kw = (k', w)" by (cases kw)
    let ?item = "\<lambda>(k, v). encode_basestring_ascii k @ 58 # 32 # enc v"
    let ?tail = "join (44 # newline_indent n l') (map ?item ((k', w) # ws'))
                   @ newline_indent n l @ 125 # rest"
    have sc: "scan_once pc F (enc v @ 44 # newline_indent n l' @ ?tail)
            = Some (v, 44 # newline_indent n l' @ ?tail)"
      by (rule Cons.prems(2)[of k]) (simp_all add: kv delim_def)
    have sk: "skip_ws (44 # newline_indent n l' @ ?tail) = 44 # newline_indent n l' @ ?tail"
      by (simp add: skip_ws_start is_ws_def)
    have sk': "skip_ws (newline_indent n l' @ ?tail) = ?tail"
      by (cases ws')
        (simp_all add: skip_ws_newline_indent skip_ws_start encode_basestring_ascii_def is_ws_def)
    have "parse_object pc F
            (join (44 # newline_indent n l') (map ?item ws) @ newline_indent n l @ 125 # rest)
            (acc @ [(k, v)]) = Some (JObj ((acc @ [(k, v)]) @ ws), rest)"
    proof (rule IH)
      show "ws \<noteq> []" by (simp add: Cons)
      show "\<And>k v rest. (k, v) \<in> set ws \<Longrightarrow> delim rest
              \<Longrightarrow> scan_once pc F (enc v @ rest) = Some (v, rest)"
        using prems(2) by auto
      show "\<And>k v. (k, v) \<in> set ws \<Longrightarrow> \<exists>d r. enc v = d # r \<and> \<not> is_ws d \<and> d \<noteq> 93"
        using prems(3) by auto
      show "\<And>k v. (k, v) \<in> set ws \<Longrightarrow> wf_str k"
        using prems(4) by auto
      show "distinct (map fst ((acc @ [(k, v)]) @ ws))"
        using prems(5) kv by simp
    qed
    then have ih: "parse_object pc F ?tail (acc @ [(k, v)])
                = Some (JObj ((acc @ [(k, v)]) @ (k', w) # ws'), rest)"
      by (simp add: Cons kw del: join.simps)
    have e: "join (44 # newline_indent n l') (map ?item (kv # ws)) @ newline_indent n l @ 125 # rest
        = encode_basestring_ascii k @ 58 # 32 # enc v @ 44 # newline_indent n l' @ ?tail"
      by (simp add: Cons kv kw)
    have "parse_object pc F
            (encode_basestring_ascii k @ 58 # 32 # enc v @ 44 # newline_indent n l' @ ?tail) acc
          = parse_object pc F (skip_ws (newline_indent n l' @ ?tail)) (dict_set acc k v)"
      using parse_object_step[OF wfk sc st sk, of acc] by simp
    also have "\<dots> = parse_object pc F ?tail (acc @ [(k, v)])"
      by (simp only: sk' dict_set_new[OF new])
    also have "\<dots> = Some (JObj ((acc @ [(k, v)]) @ (k', w) # ws'), rest)"
      by (rule ih)
    finally show ?thesis
      by (simp only: e) (simp add: Cons kv kw)
  qed
qed


lemma scan_once_open_bracket:
  "scan_once pc F (91 # t) =
     (case skip_ws t of [] \<Rightarrow> None
      | d # r \<Rightarrow> if d = ch CHR '']'' then Some (JArr [], r) else parse_array pc F (d # r) [])"
  by simp

lemma scan_once_open_brace:
  "scan_once pc F (123 # t) =
     (case skip_ws t of [] \<Rightarrow> None
      | d # r \<Rightarrow> if d = ch CHR ''}'' then Some (JObj [], r) else parse_object pc F (d # r) [])"
  by simp

lemma join_start:
  assumes "xs \<noteq> []" and "\<exists>d r. f (hd xs) = d # r \<and> P d"
  shows "\<exists>d r. join sep (map f xs) @ t = d # r \<and> P d"
proof (cases xs)
  case Nil
  with assms show ?thesis by simp
next
  case (Cons x ys)
  with assms(2) show ?thesis by (cases ys) auto
qed

lemma scan_once_iterencode:
  assumes "wf_json v" and "\<forall>x\<in>set_json v. float_ok pc F x" and "delim rest"
  shows "scan_once pc F (iterencode F n l v @ rest) = Some (v, rest)"
  using assms
proof (induction v arbitrary: l rest)
  case JNull
  then show ?case by (simp add: str_def)
next
  case (JBool b)
  then show ?case by (simp add: str_def)
next
  case (JInt i)
  then show ?case by (simp add: scan_once_int)
next
  case (JFloat x)
  then show ?case by (simp add: scan_once_float)
next
  case (JStr s)
  then show ?case by (simp add: scan_once_string)
next
  case (JArr vs)
  show ?case
  proof (cases "vs = []")
    case True
    then show ?thesis by (simp add: str_def skip_ws_def is_ws_def)
  next
    case False
    let ?enc = "iterencode F n (l + 1)"
    let ?Y = "join (44 # newline_indent n (l + 1)) (map ?enc vs) @ newline_indent n l @ 93 # rest"
    have elems: "\<And>v rest. v \<in> set vs \<Longrightarrow> delim rest
        \<Longrightarrow> scan_once pc F (?enc v @ rest) = Some (v, rest)"
      using JArr by auto
    have starts: "\<And>v. v \<in> set vs \<Longrightarrow> \<exists>d r. ?enc v = d # r \<and> \<not> is_ws d \<and> d \<noteq> 93"
      using JArr.prems(2) by (intro iterencode_start[where pc = pc]) auto
    have items: "parse_array pc F ?Y [] = Some (JArr ([] @ vs), rest)"
      using False elems starts by (rule parse_array_items)
    have "\<exists>d r. ?enc (hd vs) = d # r \<and> (\<not> is_ws d \<and> d \<noteq> 93)"
      using starts[of "hd vs"] False by simp
    from join_start[where f = ?enc and P = "\<lambda>d. \<not> is_ws d \<and> d \<noteq> 93", OF False this]
    obtain d r where Y: "?Y = d # r" and d: "\<not> is_ws d" "d \<noteq> 93" by blast
    have sk: "skip_ws (newline_indent n (l + 1) @ ?Y) = d # r"
      by (simp only: skip_ws_newline_indent Y skip_ws_start[OF d(1)])
    have "iterencode F n l (JArr vs) @ rest = 91 # newline_indent n (l + 1) @ ?Y"
      using False by (simp add: str_def)
    then have "scan_once pc F (iterencode F n l (JArr vs) @ rest) = parse_array pc F (d # r) []"
      by (simp only: scan_once_open_bracket sk) (simp add: d)
    also have "\<dots> = Some (JArr vs, rest)"
      using items by (simp only: Y) simp
    finally show ?thesis .
  qed
next
  case (JObj kvs)
  show ?case
  proof (cases "kvs = []")
    case True
    then show ?thesis by (simp add: str_def skip_ws_def is_ws_def)
  next
    case False
    let ?enc = "iterencode F n (l + 1)"
    let ?item = "\<lambda>(k, v). encode_basestring_ascii k @ 58 # 32 # ?enc v"
    let ?Y = "join (44 # newline_indent n (l + 1)) (map ?item kvs) @ newline_indent n l @ 125 # rest"
    have elems: "\<And>k v rest. (k, v) \<in> set kvs \<Longrightarrow> delim rest
        \<Longrightarrow> scan_once pc F (?enc v @ rest) = Some (v, rest)"
    proof -
      fix k v rest assume kv: "(k, v) \<in> set kvs" and dl: "delim rest"
      have w: "wf_json v" using JObj.prems(1) kv by auto
      have f: "\<forall>x\<in>set_json v. float_ok pc F x" using JObj.prems(2) kv by fastforce
      have s: "v \<in> Basic_BNFs.snds (k, v)" by simp
      show "scan_once pc F (?enc v @ rest) = Some (v, rest)"
        by (rule JObj.IH[OF kv s w f dl])
    qed
    have starts: "\<And>k v. (k, v) \<in> set kvs \<Longrightarrow> \<exists>d r. ?enc v = d # r \<and> \<not> is_ws d \<and> d \<noteq> 93"
    proof -
      fix k v assume kv: "(k, v) \<in> set kvs"
      have "\<forall>x\<in>set_json v. float_ok pc F x" using JObj.prems(2) kv by fastforce
      then show "\<exists>d r. ?enc v = d # r \<and> \<not> is_ws d \<and> d \<noteq> 93"
        by (rule iterencode_start)
    qed
    have keys: "\<And>k v. (k, v) \<in> set kvs \<Longrightarrow> wf_str k" using JObj.prems(1) by auto
    have dist: "distinct (map fst ([] @ kvs))" using JObj.prems(1) by simp
    have items: "parse_object pc F ?Y [] = Some (JObj ([] @ kvs), rest)"
      using False elems starts keys dist by (rule parse_object_items)
    have "\<exists>d r. ?item (hd kvs) = d # r \<and> (\<not> is_ws d \<and> d \<noteq> 125)"
      by (cases "hd kvs") (simp add: encode_basestring_ascii_def is_ws_def)
    from join_start[where f = ?item and P = "\<lambda>d. \<not> is_ws d \<and> d \<noteq> 125", OF False this]
    obtain d r where Y: "?Y = d # r" and d: "\<not> is_ws d" "d \<noteq> 125" by blast
    have sk: "skip_ws (newline_indent n (l + 1) @ ?Y) = d # r"
      by (simp only: skip_ws_newline_indent Y skip_ws_start[OF d(1)])
    have "iterencode F n l (JObj kvs) @ rest = 123 # newline_indent n (l + 1) @ ?Y"
      using False by (simp add: str_def)
    then have "scan_once pc F (iterencode F n l (JObj kvs) @ rest) = parse_object pc F (d # r) []"
      by (simp only: scan_once_open_brace sk) (simp add: d)
    also have "\<dots> = Some (JObj kvs, rest)"
      using items by (simp only: Y) simp
    finally show ?thesis .
  qed
qed

lemma decode_json_dumps:
  assumes "wf_json v" and "\<forall>x\<in>set_json v. float_ok pc F x"
  shows "decode pc F (json_dumps F n v) = Some v"
proof -
  obtain d r where s: "iterencode F n 0 v = d # r" and d: "\<not> is_ws d"
    using iterencode_start[OF assms(2)] by blast
  have "scan_once pc F (iterencode F n 0 v @ []) = Some (v, [])"
    using assms by (rule scan_once_iterencode) (simp add: delim_def)
  then show ?thesis
    by (simp add: decode_def json_dumps_def skip_ws_start[OF d, of r, folded s])
       (simp add: skip_ws_def)
qed

section \<open>What the decoder returns is well formed\<close>

text \<open>A Unicode scalar value: a code point that is not a surrogate. Text decoded from
  bytes consists of scalar values.\<close>
definition scalar :: "nat \<Rightarrow> bool" where
  "scalar c = (c < 1114112 \<and> \<not> (55296 \<le> c \<and> c \<le> 57343))"

definition scalar_text :: "pystr \<Rightarrow> bool" where
  "scalar_text s = list_all scalar s"

definition starts_low :: "pystr \<Rightarrow> bool" where
  "starts_low s = (take 2 s = [92, 117]
     \<and> (\<exists>u. decode_uXXXX (drop 2 s) = Some u \<and> low_surrogate u))"

lemma scalar_text_Cons [simp]: "scalar_text (c # s) = (scalar c \<and> scalar_text s)"
  by (simp add: scalar_text_def)

lemma scalar_text_Nil [simp]: "scalar_text []"
  by (simp add: scalar_text_def)

lemma scalar_text_drop: "scalar_text s \<Longrightarrow> scalar_text (drop n s)"
  unfolding scalar_text_def list_all_iff using set_drop_subset by fastforce

lemma scalar_text_append: "scalar_text (p @ r) \<Longrightarrow> scalar_text r"
  by (simp add: scalar_text_def)

lemma scalar_text_skip_ws: "scalar_text s \<Longrightarrow> scalar_text (skip_ws s)"
  unfolding scalar_text_def list_all_iff skip_ws_def using set_dropWhileD by fastforce

lemma wf_str_Cons:
  "a < 1114112 \<Longrightarrow> wf_str x \<Longrightarrow> (high_surrogate a \<longrightarrow> x = [] \<or> \<not> low_surrogate (hd x))
     \<Longrightarrow> wf_str (a # x)"
  by (cases x) auto

lemma hexval_less: "hexval c = Some d \<Longrightarrow> d < 16"
  by (auto simp: hexval_def split: if_splits)

lemma decode_uXXXX_less: "decode_uXXXX s = Some u \<Longrightarrow> u < 65536"
  by (auto simp: decode_uXXXX_def split: list.splits option.splits dest!: hexval_less)

lemma backslash_small: "backslash e = Some d \<Longrightarrow> d < 128"
  by (auto simp: backslash_def split: if_splits)

lemma prepend_eq_Some:
  "prepend c res = Some (x, r) \<longleftrightarrow> (\<exists>x'. res = Some (x', r) \<and> x = c # x')"
  by (auto simp: prepend_def split: option.splits)


lemma scanstring_wf:
  "scalar_text s \<Longrightarrow> scanstring s = Some (x, r) \<Longrightarrow>
     wf_str x \<and> scalar_text r \<and> (x \<noteq> [] \<and> low_surrogate (hd x) \<longrightarrow> starts_low s)"
proof (induction s arbitrary: x r rule: scanstring.induct)
  case 1
  then show ?case by simp
next
  case (2 c s)
  note sc = \<open>scalar_text (c # s)\<close> and res = \<open>scanstring (c # s) = Some (x, r)\<close>
  have c: "scalar c" and scs: "scalar_text s" using sc by simp_all
  consider (quote) "c = 34" | (plain) "c \<noteq> 34" "\<not> c < 32" "c \<noteq> 92"
    | (esc) "c \<noteq> 34" "\<not> c < 32" "c = 92"
    using res by (cases "c < 32") auto
  then show ?case
  proof cases
    case quote
    with res scs show ?thesis by simp
  next
    case plain
    with res obtain x' where r: "scanstring s = Some (x', r)" and x: "x = c # x'"
      by (auto simp: prepend_eq_Some)
    have p: "c \<noteq> ch CHR 0x22" "c \<noteq> ch CHR 0x5C" using plain by simp_all
    from "2.IH"(1)[OF p(1) plain(2) p(2) scs r]
    have ih: "wf_str x'" "scalar_text r" by simp_all
    have "\<not> high_surrogate c" "\<not> low_surrogate c" "c < 1114112"
      using c by (auto simp: scalar_def high_surrogate_def low_surrogate_def)
    with ih x show ?thesis by (simp add: wf_str_Cons)
  next
    case esc
    with res obtain e s' where s: "s = e # s'" by (cases s) auto
    have scs': "scalar_text s'" using scs s by simp
    show ?thesis
    proof (cases "e = 117")
      case False
      with res esc s obtain d x' where d: "backslash e = Some d"
        and r: "scanstring s' = Some (x', r)" and x: "x = d # x'"
        by (auto simp: prepend_eq_Some split: option.splits)
      have p: "c \<noteq> ch CHR 0x22" "\<not> c \<noteq> ch CHR 0x5C" "e \<noteq> ch CHR ''u''"
        using esc False by simp_all
      from "2.IH"(2)[OF p(1) esc(2) p(2) s p(3) d scs' r]
      have ih: "wf_str x'" "scalar_text r" by simp_all
      have "d < 128" using d by (rule backslash_small)
      then have "\<not> high_surrogate d" "\<not> low_surrogate d" "d < 1114112"
        by (auto simp: high_surrogate_def low_surrogate_def)
      with ih x show ?thesis by (simp add: wf_str_Cons)
    next
      case True
      with res esc s obtain uni where u: "decode_uXXXX s' = Some uni"
        by (auto split: option.splits)
      have ul: "uni < 65536" using u by (rule decode_uXXXX_less)
      have e117: "\<not> e \<noteq> ch CHR ''u''" using True by simp
      have c92: "\<not> c \<noteq> ch CHR 0x5C" using esc by simp
      have c34: "c \<noteq> ch CHR 0x22" using esc by simp
      show ?thesis
      proof (cases "55296 \<le> uni \<and> uni \<le> 56319 \<and> take 2 (drop 4 s') = str [CHR 0x5C, CHR ''u'']")
        case hi: True
        with res esc s True u obtain uni2 where u2: "decode_uXXXX (drop 6 s') = Some uni2"
          by (auto split: option.splits)
        show ?thesis
        proof (cases "56320 \<le> uni2 \<and> uni2 \<le> 57343")
          case lo: True
          let ?j = "65536 + ((uni - 55296) * 1024 + (uni2 - 56320))"
          from res esc s True u hi u2 lo obtain x' where
            r: "scanstring (drop 10 s') = Some (x', r)" and x: "x = ?j # x'"
            by (auto simp: prepend_eq_Some)
          from "2.IH"(3)[OF c34 esc(2) c92 s e117 u hi u2 lo scalar_text_drop[OF scs'] r]
          have ih: "wf_str x'" "scalar_text r" by simp_all
          have "uni - 55296 \<le> 1023" using hi by linarith
          then have "(uni - 55296) * 1024 \<le> 1023 * 1024" by (rule mult_le_mono1)
          moreover have "uni2 - 56320 \<le> 1023" using lo by linarith
          ultimately have "?j < 1114112" "65536 \<le> ?j" by simp_all
          then have "\<not> high_surrogate ?j" "\<not> low_surrogate ?j" "?j < 1114112"
            by (simp_all add: high_surrogate_def low_surrogate_def)
          with ih x show ?thesis by (simp add: wf_str_Cons)
        next
          case nlo: False
          from res esc s True u hi u2 nlo obtain x' where
            r: "scanstring (drop 4 s') = Some (x', r)" and x: "x = uni # x'"
            by (auto simp: prepend_eq_Some)
          from "2.IH"(4)[OF c34 esc(2) c92 s e117 u hi u2 nlo scalar_text_drop[OF scs'] r]
          have ih: "wf_str x'" "scalar_text r"
            "x' \<noteq> [] \<and> low_surrogate (hd x') \<longrightarrow> starts_low (drop 4 s')" by simp_all
          have "\<not> starts_low (drop 4 s')"
            using u2 nlo by (auto simp: starts_low_def low_surrogate_def)
          with ih(3) have np: "x' = [] \<or> \<not> low_surrogate (hd x')" by blast
          have "\<not> low_surrogate uni" using hi by (simp add: low_surrogate_def)
          with ih np ul x show ?thesis by (simp add: wf_str_Cons)
        qed
      next
        case nhi: False
        from res esc s True u nhi obtain x' where
          r: "scanstring (drop 4 s') = Some (x', r)" and x: "x = uni # x'"
          by (auto simp: prepend_eq_Some)
        from "2.IH"(5)[OF c34 esc(2) c92 s e117 u nhi scalar_text_drop[OF scs'] r]
        have ih: "wf_str x'" "scalar_text r"
          "x' \<noteq> [] \<and> low_surrogate (hd x') \<longrightarrow> starts_low (drop 4 s')" by simp_all
        have np: "high_surrogate uni \<longrightarrow> x' = [] \<or> \<not> low_surrogate (hd x')"
          using nhi ih(3) by (auto simp: high_surrogate_def starts_low_def str_def)
        have "low_surrogate uni \<longrightarrow> starts_low (c # s)"
          using u esc s True by (simp add: starts_low_def)
        with ih np ul x show ?thesis by (simp add: wf_str_Cons)
      qed
    qed
  qed
qed


lemma match_number_result:
  assumes "match_number F s = Some (v, r)"
  shows "(\<exists>p. s = p @ r) \<and> wf_json v"
proof -
  obtain sg s1 where 1: "scan_sign s = (sg, s1)" by fastforce
  obtain ip s2 where 2: "scan_intpart s1 = (ip, s2)" by fastforce
  obtain fr s3 where 3: "scan_frac s2 = (fr, s3)" by fastforce
  obtain ex s4 where 4: "scan_exp s3 = (ex, s4)" by fastforce
  from assms 1 2 3 4 have r: "r = s4" and v: "wf_json v"
    by (auto simp: match_number_def split: if_splits)
  have "s = (sg @ ip @ fr @ ex) @ s4"
    using scan_sign_app[OF 1] scan_intpart_app[OF 2] scan_frac_app[OF 3] scan_exp_app[OF 4]
    by simp
  with r v show ?thesis by blast
qed

lemma dict_set_keys: "fst ` set (dict_set d k v) = insert k (fst ` set d)"
  by (induction d k v rule: dict_set.induct) auto

lemma dict_set_distinct: "distinct (map fst d) \<Longrightarrow> distinct (map fst (dict_set d k v))"
  by (induction d k v rule: dict_set.induct) (auto simp: dict_set_keys)

lemma dict_set_entries: "set (dict_set d k v) \<subseteq> insert (k, v) (set d)"
  by (induction d k v rule: dict_set.induct) auto

lemma wf_dict_set:
  assumes "wf_json (JObj d)" and "wf_str k" and "wf_json v"
  shows "wf_json (JObj (dict_set d k v))"
  using assms dict_set_entries[of d k v] by (auto simp: dict_set_distinct)

lemma drop_suffix: "\<exists>p. c # s = p @ drop n s"
  by (rule exI[of _ "c # take n s"]) simp

lemma scan_wf_aux:
  "scalar_text s \<longrightarrow> (\<forall>v r. scan_once pc F s = Some (v, r) \<longrightarrow> wf_json v \<and> scalar_text r)"
  "scalar_text s' \<longrightarrow> wf_json (JArr acc) \<longrightarrow>
     (\<forall>v r. parse_array pc F s' acc = Some (v, r) \<longrightarrow> wf_json v \<and> scalar_text r)"
  "scalar_text s'' \<longrightarrow> wf_json (JObj acc') \<longrightarrow>
     (\<forall>v r. parse_object pc F s'' acc' = Some (v, r) \<longrightarrow> wf_json v \<and> scalar_text r)"
proof (induction pc F s and pc F s' acc and pc F s'' acc'
    rule: scan_once_parse_array_parse_object.induct)
  case (1 pc F)
  show ?case by simp
next
  case (2 pc F c s)
  show ?case
  proof (intro impI allI)
    fix v r
    assume sc: "scalar_text (c # s)" and res: "scan_once pc F (c # s) = Some (v, r)"
    have scs: "scalar_text s" using sc by simp
    consider (str) "c = 34" | (obj) "c \<noteq> 34" "c = 123" | (arr) "c \<noteq> 34" "c \<noteq> 123" "c = 91"
      | (other) "c \<noteq> 34" "c \<noteq> 123" "c \<noteq> 91" by blast
    then show "wf_json v \<and> scalar_text r"
    proof cases
      case str
      with res obtain x where "scanstring s = Some (x, r)" and "v = JStr x"
        by (auto split: option.splits)
      with scanstring_wf[OF scs] show ?thesis by simp
    next
      case obj
      show ?thesis
      proof (cases "skip_ws s")
        case Nil
        with res obj show ?thesis by simp
      next
        case (Cons d t)
        have sct: "scalar_text (d # t)" using scalar_text_skip_ws[OF scs] Cons by simp
        show ?thesis
        proof (cases "d = 125")
          case True
          with res obj Cons sct show ?thesis by auto
        next
          case False
          with res obj Cons have "parse_object pc F (d # t) [] = Some (v, r)" by simp
          moreover have p: "c \<noteq> ch CHR 0x22" "c = ch CHR ''{''" "d \<noteq> ch CHR ''}''"
            using obj False by simp_all
          ultimately show ?thesis using "2.IH"(1)[OF p(1) p(2) Cons p(3)] sct by simp
        qed
      qed
    next
      case arr
      show ?thesis
      proof (cases "skip_ws s")
        case Nil
        with res arr show ?thesis by simp
      next
        case (Cons d t)
        have sct: "scalar_text (d # t)" using scalar_text_skip_ws[OF scs] Cons by simp
        show ?thesis
        proof (cases "d = 93")
          case True
          with res arr Cons sct show ?thesis by auto
        next
          case False
          with res arr Cons have "parse_array pc F (d # t) [] = Some (v, r)" by simp
          moreover have p: "c \<noteq> ch CHR 0x22" "c \<noteq> ch CHR ''{''" "c = ch CHR ''[''"
            "d \<noteq> ch CHR '']''"
            using arr False by simp_all
          ultimately show ?thesis using "2.IH"(2)[OF p(1) p(2) p(3) Cons p(4)] sct by simp
        qed
      qed
    next
      case other
      have "wf_json v \<and> (\<exists>p. c # s = p @ r)"
        using res other
        by (auto simp: drop_suffix split: if_splits option.splits dest!: match_number_result)
      then obtain p where "wf_json v" "c # s = p @ r" by blast
      with sc scalar_text_append[of p r] show ?thesis by simp
    qed
  qed
next
  case (3 pc F s acc)
  show ?case
  proof (intro impI allI)
    fix v r
    assume sc: "scalar_text s" and wa: "wf_json (JArr acc)"
      and res: "parse_array pc F s acc = Some (v, r)"
    from res obtain v1 r1 where s1: "scan_once pc F s = Some (v1, r1)"
      by (auto simp: parse_array.simps[of pc F s] split: option.splits)
    with "3.IH"(1) sc have w1: "wf_json v1" and sc1: "scalar_text r1" by auto
    from res s1 obtain d t where sk: "skip_ws r1 = d # t"
      by (auto simp: parse_array.simps[of pc F s] split: list.splits)
    have sct: "scalar_text t" using scalar_text_skip_ws[OF sc1] sk by simp
    have wa': "wf_json (JArr (acc @ [v1]))" using wa w1 by auto
    show "wf_json v \<and> scalar_text r"
    proof (cases "d = 93")
      case True
      with res s1 sk have "v = JArr (acc @ [v1])" "r = t"
        by (simp_all add: parse_array.simps[of pc F s])
      with wa' sct show ?thesis by simp
    next
      case False
      with res s1 sk have dc: "d = ch CHR '',''"
        and rec: "parse_array pc F (skip_ws t) (acc @ [v1]) = Some (v, r)"
        by (auto simp: parse_array.simps[of pc F s] split: if_splits)
      have nd: "d \<noteq> ch CHR '']''" using False by simp
      from "3.IH"(2)[OF s1 refl sk nd dc] scalar_text_skip_ws[OF sct] wa' rec
      show ?thesis by blast
    qed
  qed
next
  case (4 pc F s acc)
  show ?case
  proof (intro impI allI)
    fix v r
    assume sc: "scalar_text s" and wa: "wf_json (JObj acc)"
      and res: "parse_object pc F s acc = Some (v, r)"
    note res0 = res[unfolded parse_object.simps[of pc F s acc]]
    from res0 obtain q s1 where s: "s = q # s1" and q: "q = ch CHR 0x22"
      by (auto split: list.splits if_splits)
    from res0 s q obtain key r0 where k: "scanstring s1 = Some (key, r0)"
      by (auto split: option.splits)
    have "scalar_text s1" using sc s by simp
    from scanstring_wf[OF this k] have wk: "wf_str key" and sc0: "scalar_text r0" by simp_all
    from res0 s q k obtain col r1 where sk1: "skip_ws r0 = col # r1" and col: "col = ch CHR '':''"
      by (auto split: list.splits if_splits)
    have sc1: "scalar_text r1" using scalar_text_skip_ws[OF sc0] sk1 by simp
    from res0 s q k sk1 col obtain v1 r2 where so: "scan_once pc F (skip_ws r1) = Some (v1, r2)"
      by (auto split: option.splits)
    have nq: "\<not> q \<noteq> ch CHR 0x22" using q by simp
    have ncol: "\<not> col \<noteq> ch CHR '':''" using col by simp
    from "4.IH"(1)[OF s nq k refl sk1 ncol] scalar_text_skip_ws[OF sc1] so
    have w1: "wf_json v1" and sc2: "scalar_text r2" by auto
    from res0 s q k sk1 col so obtain d r3 where sk3: "skip_ws r2 = d # r3"
      by (auto split: list.splits)
    have sc3: "scalar_text r3" using scalar_text_skip_ws[OF sc2] sk3 by simp
    have wa': "wf_json (JObj (dict_set acc key v1))" using wa wk w1 by (rule wf_dict_set)
    show "wf_json v \<and> scalar_text r"
    proof (cases "d = 125")
      case True
      with res0 s q k sk1 col so sk3 have "v = JObj (dict_set acc key v1)" "r = r3"
        by simp_all
      with wa' sc3 show ?thesis by simp
    next
      case False
      with res0 s q k sk1 col so sk3 have dc: "d = ch CHR '',''"
        and rec: "parse_object pc F (skip_ws r3) (dict_set acc key v1) = Some (v, r)"
        by (auto split: if_splits)
      have nd: "d \<noteq> ch CHR ''}''" using False by simp
      from "4.IH"(2)[OF s nq k refl sk1 ncol so refl sk3 nd dc]
        scalar_text_skip_ws[OF sc3] wa' rec
      show ?thesis by blast
    qed
  qed
qed

lemma decode_wf:
  assumes "scalar_text s" and "decode pc F s = Some v"
  shows "wf_json v"
  using assms scan_wf_aux(1)[of "skip_ws s" pc F] scalar_text_skip_ws[OF assms(1)]
  by (auto simp: decode_def split: option.splits if_splits)

section \<open>The four ways through the script\<close>

lemmas script_defs =
  main_def Let_def input_prompt_def getpass_prompt_def print_def write_file_def the_request_def

lemma main_no_response:
  assumes "post (the_request email password) = Inl e"
  shows "main F post email password w =
    (w\<lparr>stdout := stdout w @ str ''Enter username (email): '',
       tty := tty w @ str ''Enter password: '',
       posted := posted w @ [the_request email password]\<rparr>, Some e)"
  using assms by (simp add: script_defs)

lemma main_success:
  assumes "post (the_request email password) = Inr r"
    and "status_code r = 200" and "response_json F r = Some token_data"
  shows "main F post email password w =
    (w\<lparr>stdout := stdout w @ str ''Enter username (email): '' @ msg_retrieved @ [10]
                 @ json_dumps F 7 token_data @ [10] @ msg_saved @ [10],
       tty := tty w @ str ''Enter password: '',
       files := (files w)(token_file \<mapsto> json_dumps F 2 token_data),
       posted := posted w @ [the_request email password]\<rparr>, None)"
  using assms by (simp add: script_defs)

lemma main_decode_error:
  assumes "post (the_request email password) = Inr r"
    and "status_code r = 200" and "response_json F r = None"
  shows "main F post email password w =
    (w\<lparr>stdout := stdout w @ str ''Enter username (email): '' @ msg_retrieved @ [10],
       tty := tty w @ str ''Enter password: '',
       posted := posted w @ [the_request email password]\<rparr>, Some JSONDecodeError)"
  using assms by (simp add: script_defs)


lemma main_posted:
  "posted (fst (main F post email password w)) = posted w @ [the_request email password]"
  by (simp add: script_defs split: sum.splits option.splits)

subsection \<open>Some bodies, decoded and encoded\<close>

lemma loads_small_object:
  "json_loads literal_floats (str ''{\"a\":1}'') = Some (JObj [(str ''a'', JInt 1)])"
  by code_simp

lemma dumps_small_object:
  "json_dumps literal_floats 2 (JObj [(str ''a'', JInt 1)])
     = str ''{'' @ [10] @ str ''  \"a\": 1'' @ [10] @ str ''}''"
  by code_simp

lemma loads_html: "json_loads literal_floats (str ''<html>Sign in</html>'') = None"
  by code_simp



section \<open>The request\<close>

text \<open>
  C2. Whatever the operator types, the body of the request is the six form fields
  \<open>resource\<close>, \<open>client_id\<close>, \<open>grant_type\<close>, \<open>username\<close>, \<open>password\<close> and \<open>scope\<close>, in this
  order: the resource, the client identifier, the grant type and the scope are the fixed
  strings, the username is what was typed at the first prompt and the password what was
  typed at the second.
\<close>

theorem request_body_fields:
  "map req_data (posted (fst (main F post email password w))) =
     map req_data (posted w) @
       [[(str ''resource'', str ''https://management.azure.com''),
         (str ''client_id'', str ''1b730954-1685-4b74-9bfd-dac224a7b894''),
         (str ''grant_type'', str ''password''),
         (str ''username'', email),
         (str ''password'', password),
         (str ''scope'', str ''openid'')]]"
  by (simp add: main_posted the_request_def data_def)

text \<open>
  C6. Whatever the input, the headers passed with the request are the two fixed ones: the
  \<open>User-Agent\<close> of a PlayStation 4 and the form content type. Nothing read at run time
  enters them.
\<close>

theorem request_headers_fixed:
  "map req_headers (posted (fst (main F post email password w))) =
     map req_headers (posted w) @
       [[(str ''User-Agent'',
          str ''Mozilla/5.0 (PlayStation 4 3.11) AppleWebKit/537.73 (KHTML, like Gecko)''),
         (str ''Content-Type'', str ''application/x-www-form-urlencoded'')]]"
  by (simp add: main_posted the_request_def headers_def)

subsection \<open>What one call puts on the wire\<close>










section \<open>Success and failure\<close>

text \<open>
  C1, as the claim states it, fails: a response of status 200 whose body is not JSON
  leaves no \<open>token_scope.json\<close> behind.
\<close>

theorem file_on_200_counterexample:
  "status_code \<lparr>status_code = 200, resp_text = str ''<html>Sign in</html>''\<rparr> = 200
   \<and> files (fst (main literal_floats
         (\<lambda>_. Inr \<lparr>status_code = 200, resp_text = str ''<html>Sign in</html>''\<rparr>)
         (str ''user@example.com'') (str ''hunter2'') world0)) token_file = None"
proof -
  have 1: "(\<lambda>_. Inr \<lparr>status_code = 200, resp_text = str ''<html>Sign in</html>''\<rparr>)
             (the_request (str ''user@example.com'') (str ''hunter2''))
           = (Inr \<lparr>status_code = 200, resp_text = str ''<html>Sign in</html>''\<rparr>
               :: exn + response)"
    by simp
  have 2: "status_code \<lparr>status_code = 200, resp_text = str ''<html>Sign in</html>''\<rparr> = 200"
    by simp
  have 3: "response_json literal_floats
             \<lparr>status_code = 200, resp_text = str ''<html>Sign in</html>''\<rparr> = None"
    by (simp add: response_json_def loads_html)
  show ?thesis
    by (simp add: main_decode_error[OF 1 2 3] world0_def)
qed

text \<open>
  C1, amended. The file \<open>token_scope.json\<close> is written if and only if the status is 200 and
  the body parses as JSON: then it holds the parsed body serialized with an indent of 2,
  whatever it held before; with any other status, and with a status 200 whose body does
  not parse, the files are what they were.
\<close>

theorem file_written_iff:
  assumes "post (the_request email password) = Inr r"
  shows "files (fst (main F post email password w)) =
           (case (status_code r = 200, response_json F r) of
              (True, Some token_data) \<Rightarrow> (files w)(token_file \<mapsto> json_dumps F 2 token_data)
            | _ \<Rightarrow> files w)"
  using assms by (simp add: script_defs split: option.splits bool.splits)

theorem file_written_iff_witness:
  "files (fst (main literal_floats
       (\<lambda>_. Inr \<lparr>status_code = 200, resp_text = str ''{\"a\":1}''\<rparr>)
       (str ''user@example.com'') (str ''hunter2'') world0))
     = (files world0)(token_file \<mapsto> str ''{'' @ [10] @ str ''  \"a\": 1'' @ [10] @ str ''}'')"
proof -
  have "files (fst (main literal_floats
       (\<lambda>_. Inr \<lparr>status_code = 200, resp_text = str ''{\"a\":1}''\<rparr>)
       (str ''user@example.com'') (str ''hunter2'') world0))
     = (case (status_code \<lparr>status_code = 200, resp_text = str ''{\"a\":1}''\<rparr> = 200,
              response_json literal_floats \<lparr>status_code = 200, resp_text = str ''{\"a\":1}''\<rparr>) of
          (True, Some token_data) \<Rightarrow>
            (files world0)(token_file \<mapsto> json_dumps literal_floats 2 token_data)
        | _ \<Rightarrow> files world0)"
    by (rule file_written_iff) simp
  also have "\<dots> = (files world0)(token_file \<mapsto>
      json_dumps literal_floats 2 (JObj [(str ''a'', JInt 1)]))"
    by (simp add: response_json_def loads_small_object)
  finally show ?thesis by (simp only: dumps_small_object)
qed



text \<open>
  C5. The password never reaches standard output: two runs that differ only in the
  password, and whose requests get the same answer, write the same characters to standard
  output, on every path.
\<close>

theorem password_not_on_stdout:
  assumes "post (the_request email p1) = post (the_request email p2)"
  shows "stdout (fst (main F post email p1 w)) = stdout (fst (main F post email p2 w))"
  using assms by (simp add: script_defs split: sum.splits option.splits)

theorem password_not_on_stdout_witness:
  "stdout (fst (main literal_floats (\<lambda>_. Inr \<lparr>status_code = 200, resp_text = str ''{\"a\":1}''\<rparr>)
          (str ''user@example.com'') (str ''hunter2'') world0))
   = stdout (fst (main literal_floats
          (\<lambda>_. Inr \<lparr>status_code = 200, resp_text = str ''{\"a\":1}''\<rparr>)
          (str ''user@example.com'') (str ''correct horse'') world0))"
  by (rule password_not_on_stdout) simp

section \<open>What is written to the file\<close>

text \<open>
  C3, as the claim states it, fails: the body \<open>{"a":1}\<close> with status 200 is written as
  three lines, the key indented by two spaces, which is not the body.
\<close>

theorem verbatim_counterexample:
  "files (fst (main literal_floats
         (\<lambda>_. Inr \<lparr>status_code = 200, resp_text = str ''{\"a\":1}''\<rparr>)
         (str ''user@example.com'') (str ''hunter2'') world0)) token_file
     = Some (str ''{'' @ [10] @ str ''  \"a\": 1'' @ [10] @ str ''}'')
   \<and> str ''{'' @ [10] @ str ''  \"a\": 1'' @ [10] @ str ''}'' \<noteq> str ''{\"a\":1}''"
proof
  have "response_json literal_floats \<lparr>status_code = 200, resp_text = str ''{\"a\":1}''\<rparr>
          = Some (JObj [(str ''a'', JInt 1)])"
    by (simp add: response_json_def loads_small_object)
  then have "files (fst (main literal_floats
         (\<lambda>_. Inr \<lparr>status_code = 200, resp_text = str ''{\"a\":1}''\<rparr>)
         (str ''user@example.com'') (str ''hunter2'') world0)) token_file
     = Some (json_dumps literal_floats 2 (JObj [(str ''a'', JInt 1)]))"
    by (subst main_success) simp_all
  then show "files (fst (main literal_floats
         (\<lambda>_. Inr \<lparr>status_code = 200, resp_text = str ''{\"a\":1}''\<rparr>)
         (str ''user@example.com'') (str ''hunter2'') world0)) token_file
     = Some (str ''{'' @ [10] @ str ''  \"a\": 1'' @ [10] @ str ''}'')"
    by (simp only: dumps_small_object)
  show "str ''{'' @ [10] @ str ''  \"a\": 1'' @ [10] @ str ''}'' \<noteq> str ''{\"a\":1}''"
    by (simp add: str_def)
qed

text \<open>
  C3, amended. With a status 200 and a body that parses as JSON, what is written to
  \<open>token_scope.json\<close> is the parsed body serialized again with an indent of 2, not the
  body as received; the file is byte-identical to the body exactly when the body already
  has that form.
\<close>

theorem file_is_reserialized_body:
  assumes "post (the_request email password) = Inr r"
    and "status_code r = 200" and "response_json F r = Some token_data"
  shows "files (fst (main F post email password w)) token_file
           = Some (json_dumps F 2 token_data)
       \<and> (files (fst (main F post email password w)) token_file = Some (resp_text r)
            \<longleftrightarrow> resp_text r = json_dumps F 2 token_data)"
proof -
  have "main F post email password w =
    (w\<lparr>stdout := stdout w @ str ''Enter username (email): '' @ msg_retrieved @ [10]
                 @ json_dumps F 7 token_data @ [10] @ msg_saved @ [10],
       tty := tty w @ str ''Enter password: '',
       files := (files w)(token_file \<mapsto> json_dumps F 2 token_data),
       posted := posted w @ [the_request email password]\<rparr>, None)"
    using assms by (rule main_success)
  then show ?thesis by auto
qed

theorem file_is_reserialized_body_witness:
  "files (fst (main literal_floats
         (\<lambda>_. Inr \<lparr>status_code = 200, resp_text = str ''{\"a\":1}''\<rparr>)
         (str ''user@example.com'') (str ''hunter2'') world0)) token_file
     = Some (json_dumps literal_floats 2 (JObj [(str ''a'', JInt 1)]))"
proof -
  have 1: "(\<lambda>_. Inr \<lparr>status_code = 200, resp_text = str ''{\"a\":1}''\<rparr>)
             (the_request (str ''user@example.com'') (str ''hunter2''))
           = (Inr \<lparr>status_code = 200, resp_text = str ''{\"a\":1}''\<rparr> :: exn + response)"
    by simp
  have 2: "status_code \<lparr>status_code = 200, resp_text = str ''{\"a\":1}''\<rparr> = 200"
    by simp
  have 3: "response_json literal_floats \<lparr>status_code = 200, resp_text = str ''{\"a\":1}''\<rparr>
             = Some (JObj [(str ''a'', JInt 1)])"
    by (simp add: response_json_def loads_small_object)
  from file_is_reserialized_body[OF 1 2 3, where w = world0] show ?thesis
    by simp
qed

section \<open>Reading the file back\<close>


subsection \<open>Evaluating the library on given texts\<close>

lemma replicate_numeral: "replicate (numeral k) x = x # replicate (pred_numeral k) x"
  by (simp add: numeral_eq_Suc)

lemmas json_eval =
  json_loads_def decode_def skip_ws_def is_ws_def str_def parse_array.simps parse_object.simps
  match_number_def scan_sign_def scan_intpart_def scan_frac_def scan_exp_def isdigit_def
  prepend_def backslash_def decode_uXXXX_def hexval_def int_of_text_def digits_value_def
  literal_floats_def Let_def

lemmas dumps_eval =
  replicate_numeral json_dumps_def newline_indent_def encode_basestring_ascii_def
  escape_char_def hex4_def hexdigit_def floatstr_def repr_int_def digits.simps str_def
  literal_floats_def Let_def

lemma loads_dumps:
  assumes "scalar_text body" and "json_loads F body = Some t"
    and "\<forall>x\<in>set_json t. float_ok True F x"
  shows "json_loads F (json_dumps F n t) = Some t"
proof -
  have "wf_json t" using assms(1,2) by (auto simp: json_loads_def intro: decode_wf)
  then show ?thesis unfolding json_loads_def using assms(3) by (rule decode_json_dumps)
qed


lemma body_float_scalar: "scalar_text (str ''{\"a\":1.5}'')"
  by (simp add: str_def scalar_def)

lemma loads_body_float:
  "json_loads literal_floats (str ''{\"a\":1.5}'') = Some (JObj [(str ''a'', JFloat (str ''1.5''))])"
  by (simp add: json_eval)

lemma float_ok_literal: "float_ok pc literal_floats (str ''1.5'')"
  by (simp add: float_ok_def json_eval)





lemma loads_body_surrogates:
  "json_loads literal_floats [123, 34, 107, 34, 58, 34, 55357, 56510, 34, 125]
     = Some (JObj [(str ''k'', JStr [55357, 56510])])"
  by (simp add: json_eval)

lemma dumps_body_surrogates:
  "json_dumps literal_floats n (JObj [(str ''k'', JStr [55357, 56510])])
     = str ''{'' @ newline_indent n 1 @ str ''\"k\": \"'' @ [92] @ str ''ud83d'' @ [92]
       @ str ''udcbe\"'' @ [10] @ str ''}''"
  by (simp add: dumps_eval del: replicate_numeral)

lemma loads_escaped_surrogates:
  "json_loads literal_floats (str ''{'' @ newline_indent n 1 @ str ''\"k\": \"'' @ [92]
       @ str ''ud83d'' @ [92] @ str ''udcbe\"'' @ [10] @ str ''}'')
     = Some (JObj [(str ''k'', JStr [128190])])"
  by (simp add: json_eval newline_indent_def dropWhile_append)

subsection \<open>A status 200 with a body that is not JSON\<close>







subsection \<open>The file, and what is printed, read back\<close>




text \<open>
  C10, as the claim states it, fails. In the body \<open>{"k":"..."}\<close> let the string hold the
  two code points U+D83D and U+DCBE, unescaped (a Python string can; the \<open>unicode_escape\<close>
  codec decodes bytes to such a string). The encoder writes them as two \<open>\uXXXX\<close> escapes,
  with either indent, and the decoder reads the two escapes as the one code point U+1F4BE:
  what is printed and what is saved parse back to another value than the parsed response.
\<close>

theorem round_trip_counterexample:
  "json_loads literal_floats [123, 34, 107, 34, 58, 34, 55357, 56510, 34, 125]
     = Some (JObj [(str ''k'', JStr [55357, 56510])])
   \<and> json_loads literal_floats
         (json_dumps literal_floats 7 (JObj [(str ''k'', JStr [55357, 56510])]))
       = Some (JObj [(str ''k'', JStr [128190])])
   \<and> files (fst (main literal_floats
         (\<lambda>_. Inr \<lparr>status_code = 200,
                     resp_text = [123, 34, 107, 34, 58, 34, 55357, 56510, 34, 125]\<rparr>)
         (str ''user@example.com'') (str ''hunter2'') world0)) token_file
       = Some (json_dumps literal_floats 2 (JObj [(str ''k'', JStr [55357, 56510])]))
   \<and> json_loads literal_floats
         (json_dumps literal_floats 2 (JObj [(str ''k'', JStr [55357, 56510])]))
       = Some (JObj [(str ''k'', JStr [128190])])
   \<and> JObj [(str ''k'', JStr [128190])] \<noteq> (JObj [(str ''k'', JStr [55357, 56510])] :: pystr json)"
proof -
  let ?body = "[123, 34, 107, 34, 58, 34, 55357, 56510, 34, 125] :: pystr"
  have 1: "(\<lambda>_. Inr \<lparr>status_code = 200, resp_text = ?body\<rparr>)
             (the_request (str ''user@example.com'') (str ''hunter2''))
           = (Inr \<lparr>status_code = 200, resp_text = ?body\<rparr> :: exn + response)"
    by simp
  have 2: "status_code \<lparr>status_code = 200, resp_text = ?body\<rparr> = 200"
    by simp
  have 3: "response_json literal_floats \<lparr>status_code = 200, resp_text = ?body\<rparr>
             = Some (JObj [(str ''k'', JStr [55357, 56510])])"
    by (simp add: response_json_def loads_body_surrogates)
  have 4: "json_loads literal_floats
         (json_dumps literal_floats n (JObj [(str ''k'', JStr [55357, 56510])]))
       = Some (JObj [(str ''k'', JStr [128190])])" for n
    by (simp only: dumps_body_surrogates loads_escaped_surrogates)
  show ?thesis
    by (simp add: main_success[OF 1 2 3] loads_body_surrogates 4)
qed

text \<open>
  C10, amended. On the success path, for a body without surrogate code points (text
  decoded from UTF-8 has none) whose floats the decoder reads back from what the encoder
  writes for them, the text printed to standard output (indent 7) and the text written to
  \<open>token_scope.json\<close> (indent 2) both parse back to the parsed response value.
\<close>

theorem printed_and_saved_parse_back:
  assumes "post (the_request email password) = Inr r"
    and "status_code r = 200" and "response_json F r = Some token_data"
    and "scalar_text (resp_text r)" and "\<forall>x\<in>set_json token_data. float_ok True F x"
  shows "stdout (fst (main F post email password w))
           = stdout w @ str ''Enter username (email): '' @ msg_retrieved @ [10]
             @ json_dumps F 7 token_data @ [10] @ msg_saved @ [10]
       \<and> files (fst (main F post email password w)) token_file
           = Some (json_dumps F 2 token_data)
       \<and> json_loads F (json_dumps F 7 token_data) = Some token_data
       \<and> json_loads F (json_dumps F 2 token_data) = Some token_data"
proof -
  have l: "json_loads F (resp_text r) = Some token_data"
    using assms(3) by (simp add: response_json_def)
  have "json_loads F (json_dumps F n token_data) = Some token_data" for n
    using assms(4) l assms(5) by (rule loads_dumps)
  then show ?thesis
    by (simp add: main_success[where post = post and email = email and password = password, OF assms(1) assms(2) assms(3)])
qed

theorem printed_and_saved_parse_back_witness:
  "files (fst (main literal_floats
         (\<lambda>_. Inr \<lparr>status_code = 200, resp_text = str ''{\"a\":1.5}''\<rparr>)
         (str ''user@example.com'') (str ''hunter2'') world0)) token_file
     = Some (json_dumps literal_floats 2 (JObj [(str ''a'', JFloat (str ''1.5''))]))
   \<and> json_loads literal_floats (json_dumps literal_floats 7 (JObj [(str ''a'', JFloat (str ''1.5''))]))
       = Some (JObj [(str ''a'', JFloat (str ''1.5''))])
   \<and> json_loads literal_floats (json_dumps literal_floats 2 (JObj [(str ''a'', JFloat (str ''1.5''))]))
       = Some (JObj [(str ''a'', JFloat (str ''1.5''))])"
proof -
  have 1: "(\<lambda>_. Inr \<lparr>status_code = 200, resp_text = str ''{\"a\":1.5}''\<rparr>)
             (the_request (str ''user@example.com'') (str ''hunter2''))
           = (Inr \<lparr>status_code = 200, resp_text = str ''{\"a\":1.5}''\<rparr> :: exn + response)"
    by simp
  have 2: "status_code \<lparr>status_code = 200, resp_text = str ''{\"a\":1.5}''\<rparr> = 200"
    by simp
  have 3: "response_json literal_floats \<lparr>status_code = 200, resp_text = str ''{\"a\":1.5}''\<rparr>
             = Some (JObj [(str ''a'', JFloat (str ''1.5''))])"
    by (simp add: response_json_def loads_body_float)
  have 4: "scalar_text (resp_text \<lparr>status_code = 200, resp_text = str ''{\"a\":1.5}''\<rparr>)"
    by (simp add: body_float_scalar)
  have 5: "\<forall>x\<in>set_json (JObj [(str ''a'', JFloat (str ''1.5''))]). float_ok True literal_floats x"
    by (simp add: float_ok_literal)
  from printed_and_saved_parse_back[OF 1 2 3 4 5, where w = world0]
  show ?thesis by simp
qed

end
